theory Spec2Isabelle
  imports Main
begin

section \<open>JavaScript strings\<close>

text \<open>
  The streaming handler of \<^verbatim>\<open>app/api/generate-ai-code-stream/route.ts\<close> works on
  JavaScript strings. A string is modelled as a \<^typ>\<open>string\<close>, one \<^typ>\<open>char\<close> per
  code unit (code units below 256). \<^verbatim>\<open>\s\<close> and \<^verbatim>\<open>trim\<close> use the white space of
  that range, \<^verbatim>\<open>\w\<close> is \<^verbatim>\<open>[A-Za-z0-9_]\<close>.
\<close>

definition is_ws :: \<open>char \<Rightarrow> bool\<close> where
  \<open>is_ws c = (c \<in> set [CHR 0x09, CHR 0x0A, CHR 0x0B, CHR 0x0C, CHR 0x0D, CHR 0x20, CHR 0xA0])\<close>

definition is_alnum :: \<open>char \<Rightarrow> bool\<close> where
  \<open>is_alnum c = (let n = (of_char c :: nat) in
     (48 \<le> n \<and> n \<le> 57) \<or> (65 \<le> n \<and> n \<le> 90) \<or> (97 \<le> n \<and> n \<le> 122))\<close>

definition is_word :: \<open>char \<Rightarrow> bool\<close> where
  \<open>is_word c = (is_alnum c \<or> c = CHR ''_'')\<close>

definition js_trim :: \<open>string \<Rightarrow> string\<close> where
  \<open>js_trim s = rev (dropWhile is_ws (rev (dropWhile is_ws s)))\<close>

definition js_startsWith :: \<open>string \<Rightarrow> string \<Rightarrow> bool\<close> where
  \<open>js_startsWith s p = (take (length p) s = p)\<close>

definition js_endsWith :: \<open>string \<Rightarrow> string \<Rightarrow> bool\<close> where
  \<open>js_endsWith s p = (length p \<le> length s \<and> drop (length s - length p) s = p)\<close>

text \<open>
  \<open>splitFirst p s\<close> cuts \<open>s\<close> at the first occurrence of \<open>p\<close>: the text before it and the
  text after it. It is \<^verbatim>\<open>indexOf\<close> with both sides returned.
\<close>

fun splitFirst :: \<open>string \<Rightarrow> string \<Rightarrow> (string \<times> string) option\<close> where
  \<open>splitFirst p [] = (if p = [] then Some ([], []) else None)\<close>
| \<open>splitFirst p (c # cs) =
     (if js_startsWith (c # cs) p then Some ([], drop (length p) (c # cs))
      else (case splitFirst p cs of None \<Rightarrow> None | Some (b, a) \<Rightarrow> Some (c # b, a)))\<close>

definition js_includes :: \<open>string \<Rightarrow> string \<Rightarrow> bool\<close> where
  \<open>js_includes s p = (splitFirst p s \<noteq> None)\<close>

text \<open>\<^verbatim>\<open>s.replace(p, r)\<close> with a string pattern: the first occurrence only.\<close>

definition replaceFirst :: \<open>string \<Rightarrow> string \<Rightarrow> string \<Rightarrow> string\<close> where
  \<open>replaceFirst p r s = (case splitFirst p s of None \<Rightarrow> s | Some (b, a) \<Rightarrow> b @ r @ a)\<close>

text \<open>Decimal rendering of a number inside a template literal.\<close>

fun show_nat :: \<open>nat \<Rightarrow> string\<close> where
  \<open>show_nat n = (if n < 10 then [char_of (48 + n)] else show_nat (n div 10) @ [char_of (48 + n mod 10)])\<close>

section \<open>Regular expressions of the handler\<close>

text \<open>
  Every regular expression of the handler is deterministic at a given start position (a
  greedy class run is always followed by a character outside the class, a lazy
  \<^verbatim>\<open>[\s\S]*?\<close> by a literal), so a match anchored at the head of a string is a function
  \<open>at\<close> returning the captures and the length of the match. \<open>findFirst\<close> is a
  non-global \<^verbatim>\<open>match\<close>/\<^verbatim>\<open>test\<close>: the leftmost start position that matches.
  \<open>execAll\<close> is the loop \<^verbatim>\<open>while ((m = re.exec(s)) !== null)\<close> of a global expression:
  \<open>skip\<close> counts the characters left before \<^verbatim>\<open>lastIndex\<close>, \<open>pos\<close> is the index of
  the head of the string; each match is returned with the \<^verbatim>\<open>lastIndex\<close> after it.
  No expression here matches the empty string.
\<close>

fun findFirst :: \<open>(string \<Rightarrow> 'a option) \<Rightarrow> string \<Rightarrow> 'a option\<close> where
  \<open>findFirst at [] = at []\<close>
| \<open>findFirst at (c # cs) = (case at (c # cs) of Some m \<Rightarrow> Some m | None \<Rightarrow> findFirst at cs)\<close>

fun execAll :: \<open>(string \<Rightarrow> ('a \<times> nat) option) \<Rightarrow> nat \<Rightarrow> nat \<Rightarrow> string \<Rightarrow> ('a \<times> nat) list\<close> where
  \<open>execAll at skip pos [] = []\<close>
| \<open>execAll at skip pos (c # cs) =
     (case skip of
        Suc k \<Rightarrow> execAll at k (Suc pos) cs
      | 0 \<Rightarrow> (case at (c # cs) of
                None \<Rightarrow> execAll at 0 (Suc pos) cs
              | Some (g, n) \<Rightarrow> (g, pos + n) # execAll at (n - 1) (Suc pos) cs))\<close>

text \<open>\<^verbatim>\<open>(s.match(/lit/g) || []).length\<close> for a literal \<open>p\<close>.\<close>

definition literalAt :: \<open>string \<Rightarrow> string \<Rightarrow> (unit \<times> nat) option\<close> where
  \<open>literalAt p s = (if p \<noteq> [] \<and> js_startsWith s p then Some ((), length p) else None)\<close>

definition countMatches :: \<open>string \<Rightarrow> string \<Rightarrow> nat\<close> where
  \<open>countMatches p s = length (execAll (literalAt p) 0 0 s)\<close>

definition tagNames :: \<open>string list\<close> where
  \<open>tagNames = [''file'', ''package'', ''packages'', ''explanation'', ''command'', ''structure'',
     ''template'']\<close>

text \<open>\<^verbatim>\<open>/<(file|package|packages|explanation|command|structure|template)\b/\<close>\<close>

definition openTagAt :: \<open>string \<Rightarrow> unit option\<close> where
  \<open>openTagAt s =
     (if list_ex (\<lambda>n. js_startsWith s (CHR ''<'' # n) \<and>
            (case drop (Suc (length n)) s of [] \<Rightarrow> True | c # _ \<Rightarrow> \<not> is_word c)) tagNames
      then Some () else None)\<close>

definition hasOpenTag :: \<open>string \<Rightarrow> bool\<close> where
  \<open>hasOpenTag text = (findFirst openTagAt text \<noteq> None)\<close>

text \<open>\<^verbatim>\<open>/<\/(file|package|packages|explanation|command|structure|template)>/\<close>\<close>

definition hasCloseTag :: \<open>string \<Rightarrow> bool\<close> where
  \<open>hasCloseTag text = list_ex (\<lambda>n. js_includes text (''</'' @ n @ ''>'')) tagNames\<close>

text \<open>\<^verbatim>\<open>/<package>([^<]+)<\/package>/g\<close>\<close>

definition packageAt :: \<open>string \<Rightarrow> (string \<times> nat) option\<close> where
  \<open>packageAt s =
     (if js_startsWith s ''<package>'' then
        (let r = drop 9 s;
             name = takeWhile (\<lambda>c. c \<noteq> CHR ''<'') r;
             r' = dropWhile (\<lambda>c. c \<noteq> CHR ''<'') r
         in if name \<noteq> [] \<and> js_startsWith r' ''</package>''
            then Some (name, 9 + length name + 10) else None)
      else None)\<close>

text \<open>\<^verbatim>\<open>/<packages>([\s\S]*?)<\/packages>/g\<close>\<close>

definition packagesAt :: \<open>string \<Rightarrow> (string \<times> nat) option\<close> where
  \<open>packagesAt s =
     (if js_startsWith s ''<packages>'' then
        (case splitFirst ''</packages>'' (drop 10 s) of
           None \<Rightarrow> None
         | Some (body, _) \<Rightarrow> Some (body, 10 + length body + 11))
      else None)\<close>

text \<open>The head \<^verbatim>\<open><file path="([^"]+)"\<close> shared by the file expressions: the path and the
  text after the closing quote.\<close>

definition filePathAt :: \<open>string \<Rightarrow> (string \<times> string) option\<close> where
  \<open>filePathAt s =
     (if js_startsWith s ''<file path="'' then
        (let r = drop 12 s;
             path = takeWhile (\<lambda>c. c \<noteq> CHR 0x22) r;
             r' = dropWhile (\<lambda>c. c \<noteq> CHR 0x22) r
         in if path \<noteq> [] \<and> r' \<noteq> [] then Some (path, drop 1 r') else None)
      else None)\<close>

text \<open>\<^verbatim>\<open>/<file path="([^"]+)">([\s\S]*?)<\/file>/g\<close>\<close>

definition fileAt :: \<open>string \<Rightarrow> ((string \<times> string) \<times> nat) option\<close> where
  \<open>fileAt s =
     (case filePathAt s of
        None \<Rightarrow> None
      | Some (path, r) \<Rightarrow>
          (if js_startsWith r ''>'' then
             (case splitFirst ''</file>'' (drop 1 r) of
                None \<Rightarrow> None
              | Some (body, _) \<Rightarrow> Some ((path, body), 12 + length path + 2 + length body + 7))
           else None))\<close>

text \<open>\<^verbatim>\<open>/<file path="([^"]+)">([\s\S]*?)(?:<\/file>|$)/g\<close>\<close>

definition fileOrEndAt :: \<open>string \<Rightarrow> ((string \<times> string) \<times> nat) option\<close> where
  \<open>fileOrEndAt s =
     (case filePathAt s of
        None \<Rightarrow> None
      | Some (path, r) \<Rightarrow>
          (if js_startsWith r ''>'' then
             (case splitFirst ''</file>'' (drop 1 r) of
                None \<Rightarrow> Some ((path, drop 1 r), length s)
              | Some (body, _) \<Rightarrow> Some ((path, body), 12 + length path + 2 + length body + 7))
           else None))\<close>

text \<open>\<^verbatim>\<open>/<explanation>([\s\S]*?)<\/explanation>/\<close>\<close>

definition explanationAt :: \<open>string \<Rightarrow> string option\<close> where
  \<open>explanationAt s =
     (if js_startsWith s ''<explanation>'' then
        (case splitFirst ''</explanation>'' (drop 13 s) of
           None \<Rightarrow> None
         | Some (body, _) \<Rightarrow> Some body)
      else None)\<close>

text \<open>\<^verbatim>\<open>/<\/[a-zA-Z0-9]+>/\<close>\<close>

definition closingTagAt :: \<open>string \<Rightarrow> unit option\<close> where
  \<open>closingTagAt s =
     (if js_startsWith s ''</'' then
        (let r = drop 2 s
         in if takeWhile is_alnum r \<noteq> [] \<and> js_startsWith (dropWhile is_alnum r) ''>''
            then Some () else None)
      else None)\<close>

text \<open>\<^verbatim>\<open>/\.(jsx?|tsx?)$/\<close>\<close>

definition isScriptPath :: \<open>string \<Rightarrow> bool\<close> where
  \<open>isScriptPath p = (js_endsWith p ''.js'' \<or> js_endsWith p ''.jsx'' \<or> js_endsWith p ''.ts'' \<or>
     js_endsWith p ''.tsx'')\<close>

text \<open>
  The import expression of \<^verbatim>\<open>extractPackagesFromCode\<close>:
  \<^verbatim>\<open>/import\s+(?:(?:\{[^}]*\}|\*\s+as\s+\w+|\w+)(?:\s*,\s*(?:\{[^}]*\}|\*\s+as\s+\w+|\w+))*\s+from\s+)?['"]([^'"]+)['"]/g\<close>.
  Each piece returns the text left after it. The three clause alternatives start with
  different characters, none of them with white space or a quote, so no backtracking
  into a shorter run or into the optional group can succeed.
\<close>

definition ws1 :: \<open>string \<Rightarrow> string option\<close> where
  \<open>ws1 s = (case s of [] \<Rightarrow> None | c # r \<Rightarrow> if is_ws c then Some (dropWhile is_ws r) else None)\<close>

definition word1 :: \<open>string \<Rightarrow> string option\<close> where
  \<open>word1 s = (case s of [] \<Rightarrow> None | c # r \<Rightarrow> if is_word c then Some (dropWhile is_word r) else None)\<close>

definition lit :: \<open>string \<Rightarrow> string \<Rightarrow> string option\<close> where
  \<open>lit p s = (if js_startsWith s p then Some (drop (length p) s) else None)\<close>

definition importClause :: \<open>string \<Rightarrow> string option\<close> where
  \<open>importClause s =
     (case s of
        [] \<Rightarrow> None
      | c # r \<Rightarrow>
          if c = CHR ''{'' then
            (case dropWhile (\<lambda>d. d \<noteq> CHR ''}'') r of [] \<Rightarrow> None | _ # r' \<Rightarrow> Some r')
          else if c = CHR ''*'' then
            Option.bind (Option.bind (Option.bind (ws1 r) (lit ''as'')) ws1) word1
          else word1 s)\<close>

lemma length_dropWhile_le': \<open>length (dropWhile P xs) \<le> length xs\<close>
  by (induction xs) auto

lemma ws1_shorter: \<open>ws1 s = Some r \<Longrightarrow> length r < length s\<close>
  using length_dropWhile_le' [of is_ws] by (auto simp: ws1_def le_imp_less_Suc split: list.splits if_splits)

lemma word1_shorter: \<open>word1 s = Some r \<Longrightarrow> length r < length s\<close>
  using length_dropWhile_le' [of is_word] by (auto simp: word1_def le_imp_less_Suc split: list.splits if_splits)

lemma lit_shorter: \<open>lit p s = Some r \<Longrightarrow> length r \<le> length s\<close>
  by (auto simp: lit_def split: if_splits)

lemma importClause_shorter: \<open>importClause s = Some r \<Longrightarrow> length r < length s\<close>
proof (cases s)
  case Nil
  then show \<open>importClause s = Some r \<Longrightarrow> length r < length s\<close> by (simp add: importClause_def)
next
  case (Cons c t)
  assume a: \<open>importClause s = Some r\<close>
  consider (brace) \<open>c = CHR ''{''\<close> | (star) \<open>c \<noteq> CHR ''{''\<close> \<open>c = CHR ''*''\<close>
    | (word) \<open>c \<noteq> CHR ''{''\<close> \<open>c \<noteq> CHR ''*''\<close> by blast
  then show \<open>length r < length s\<close>
  proof cases
    case brace
    with a Cons obtain x where \<open>dropWhile (\<lambda>d. d \<noteq> CHR ''}'') t = x # r\<close>
      by (auto simp: importClause_def split: list.splits)
    moreover have \<open>length (dropWhile (\<lambda>d. d \<noteq> CHR ''}'') t) \<le> length t\<close>
      by (rule length_dropWhile_le')
    ultimately show ?thesis using Cons by simp
  next
    case star
    with a Cons obtain r1 r2 r3 where
      \<open>ws1 t = Some r1\<close> \<open>lit ''as'' r1 = Some r2\<close> \<open>ws1 r2 = Some r3\<close> \<open>word1 r3 = Some r\<close>
      by (auto simp: importClause_def Option.bind_eq_Some_conv)
    then show ?thesis
      using Cons ws1_shorter [of t r1] lit_shorter [of \<open>''as''\<close> r1 r2] ws1_shorter [of r2 r3]
        word1_shorter [of r3 r] by simp
  next
    case word
    with a Cons have \<open>word1 s = Some r\<close> by (simp add: importClause_def)
    then show ?thesis by (rule word1_shorter)
  qed
qed

text \<open>The repetition \<^verbatim>\<open>(?:\s*,\s*(?:...))*\<close>: the text left after the last clause that
  matches.\<close>

function moreClauses :: \<open>string \<Rightarrow> string\<close> where
  \<open>moreClauses s =
     (case dropWhile is_ws s of
        [] \<Rightarrow> s
      | c # r \<Rightarrow>
          if c = CHR '','' then
            (case importClause (dropWhile is_ws r) of None \<Rightarrow> s | Some r' \<Rightarrow> moreClauses r')
          else s)\<close>
  by pat_completeness auto
termination
proof (relation \<open>measure length\<close>)
  show \<open>wf (measure length)\<close> by simp
next
  fix s :: string and c r r'
  assume d: \<open>dropWhile is_ws s = c # r\<close> and i: \<open>importClause (dropWhile is_ws r) = Some r'\<close>
  have \<open>length r' < length (dropWhile is_ws r)\<close> using i by (rule importClause_shorter)
  also have \<open>\<dots> \<le> length r\<close> by (rule length_dropWhile_le')
  also have \<open>\<dots> < length (dropWhile is_ws s)\<close> using d by simp
  also have \<open>\<dots> \<le> length s\<close> by (rule length_dropWhile_le')
  finally show \<open>(r', s) \<in> measure length\<close> by simp
qed

definition is_quote :: \<open>char \<Rightarrow> bool\<close> where
  \<open>is_quote c = (c = CHR 0x27 \<or> c = CHR 0x22)\<close>

text \<open>\<^verbatim>\<open>['"]([^'"]+)['"]\<close>\<close>

definition quoted :: \<open>string \<Rightarrow> (string \<times> string) option\<close> where
  \<open>quoted s =
     (case s of
        [] \<Rightarrow> None
      | q # r \<Rightarrow>
          if is_quote q then
            (let p = takeWhile (\<lambda>c. \<not> is_quote c) r; r' = dropWhile (\<lambda>c. \<not> is_quote c) r
             in if p \<noteq> [] \<and> r' \<noteq> [] then Some (p, drop 1 r') else None)
          else None)\<close>

definition importAt :: \<open>string \<Rightarrow> (string \<times> nat) option\<close> where
  \<open>importAt s =
     (case Option.bind (lit ''import'' s) ws1 of
        None \<Rightarrow> None
      | Some r \<Rightarrow>
          (let withFrom =
                 (case importClause r of
                    None \<Rightarrow> None
                  | Some r1 \<Rightarrow>
                      Option.bind (Option.bind (Option.bind (ws1 (moreClauses r1)) (lit ''from'')) ws1)
                        quoted)
           in case withFrom of
                Some (p, rest) \<Rightarrow> Some (p, length s - length rest)
              | None \<Rightarrow>
                  (case quoted r of
                     Some (p, rest) \<Rightarrow> Some (p, length s - length rest)
                   | None \<Rightarrow> None)))\<close>

fun splitOn :: \<open>char \<Rightarrow> string \<Rightarrow> string list\<close> where
  \<open>splitOn d [] = [[]]\<close>
| \<open>splitOn d (c # cs) =
     (if c = d then [] # splitOn d cs
      else (case splitOn d cs of [] \<Rightarrow> [[c]] | x # xs \<Rightarrow> (c # x) # xs))\<close>

fun joinWith :: \<open>char \<Rightarrow> string list \<Rightarrow> string\<close> where
  \<open>joinWith d [] = []\<close>
| \<open>joinWith d [x] = x\<close>
| \<open>joinWith d (x # y # ys) = x @ d # joinWith d (y # ys)\<close>

text \<open>The body of the import loop: the package an import path names, if any.\<close>

definition packageOfImport :: \<open>string \<Rightarrow> string option\<close> where
  \<open>packageOfImport importPath =
     (if \<not> js_startsWith importPath ''.'' \<and> \<not> js_startsWith importPath ''/'' \<and>
         importPath \<noteq> ''react'' \<and> importPath \<noteq> ''react-dom'' \<and>
         \<not> js_startsWith importPath ''@/''
      then Some (if js_startsWith importPath ''@''
                 then joinWith CHR ''/'' (take 2 (splitOn CHR ''/'' importPath))
                 else takeWhile (\<lambda>c. c \<noteq> CHR ''/'') importPath)
      else None)\<close>

definition extractPackagesFromCode :: \<open>string \<Rightarrow> string list\<close> where
  \<open>extractPackagesFromCode content =
     foldl (\<lambda>packages (importPath, _).
              case packageOfImport importPath of
                None \<Rightarrow> packages
              | Some packageName \<Rightarrow>
                  if packageName \<in> set packages then packages else packages @ [packageName])
       [] (execAll importAt 0 0 content)\<close>

text \<open>\<^verbatim>\<open>split(/[\n,]+/)\<close>: the pieces between the maximal runs of separators.\<close>

definition is_sep :: \<open>char \<Rightarrow> bool\<close> where
  \<open>is_sep c = (c = CHR 0x0A \<or> c = CHR '','')\<close>

fun splitSeps :: \<open>bool \<Rightarrow> string \<Rightarrow> string list\<close> where
  \<open>splitSeps inRun [] = [[]]\<close>
| \<open>splitSeps inRun (c # cs) =
     (if is_sep c then (if inRun then splitSeps True cs else [] # splitSeps True cs)
      else (case splitSeps False cs of [] \<Rightarrow> [[c]] | x # xs \<Rightarrow> (c # x) # xs))\<close>

section \<open>Progress events and the session state\<close>

text \<open>
  The objects given to \<^verbatim>\<open>sendProgress\<close>, by their \<^verbatim>\<open>type\<close> field:
  \<open>Component name path index\<close>, \<open>App path\<close>, \<open>Package name message\<close>,
  \<open>Warning message warnings\<close>,
  \<open>Complete generatedCode explanation files components packagesToInstall warnings\<close>
  (an absent field is \<open>None\<close>).
\<close>

datatype event =
    Status string
  | Conversation string
  | Stream string
  | Component string string nat
  | App string
  | Package string string
  | Warning string \<open>string list option\<close>
  | Info string
  | Complete string string nat nat \<open>string list option\<close> \<open>string list option\<close>
  | Error string

text \<open>The variables of the streaming loop, and \<open>sent\<close>: what \<^verbatim>\<open>sendProgress\<close> has
  written so far, in order.\<close>

record session =
  generatedCode :: string
  currentFile :: string
  currentFilePath :: string
  componentCount :: nat
  isInFile :: bool
  isInTag :: bool
  conversationalBuffer :: string
  tagBuffer :: string
  packagesToInstall :: \<open>string list\<close>
  sent :: \<open>event list\<close>

definition initial :: session where
  \<open>initial = \<lparr>generatedCode = [], currentFile = [], currentFilePath = [], componentCount = 0,
     isInFile = False, isInTag = False, conversationalBuffer = [], tagBuffer = [],
     packagesToInstall = [], sent = []\<rparr>\<close>

definition sendProgress :: \<open>event \<Rightarrow> session \<Rightarrow> session\<close> where
  \<open>sendProgress e st = st\<lparr>sent := sent st @ [e]\<rparr>\<close>

text \<open>\<^verbatim>\<open>if (!packagesToInstall.includes(name)) { packagesToInstall.push(name); sendProgress(...) }\<close>\<close>

definition addPackage :: \<open>string \<Rightarrow> string \<Rightarrow> session \<Rightarrow> session\<close> where
  \<open>addPackage msg name st =
     (if name \<in> set (packagesToInstall st) then st
      else sendProgress (Package name (msg @ name))
             (st\<lparr>packagesToInstall := packagesToInstall st @ [name]\<rparr>))\<close>

text \<open>\<^verbatim>\<open>path.split('/').pop()?.replace('.jsx', '') || 'Component'\<close>\<close>

definition componentName :: \<open>string \<Rightarrow> string\<close> where
  \<open>componentName path =
     (let n = replaceFirst ''.jsx'' [] (rev (takeWhile (\<lambda>c. c \<noteq> CHR ''/'') (rev path)))
      in if n = [] then ''Component'' else n)\<close>

section \<open>The streaming loop\<close>

text \<open>Lines 1685--1708: open and close tags of the chunk, the conversational buffer.\<close>

definition trackTags :: \<open>string \<Rightarrow> session \<Rightarrow> session\<close> where
  \<open>trackTags text st =
     (let st1 = (if hasOpenTag text then
                   (if js_trim (conversationalBuffer st) \<noteq> [] \<and> \<not> isInTag st
                    then (sendProgress (Conversation (js_trim (conversationalBuffer st))) st)
                           \<lparr>conversationalBuffer := []\<rparr>
                    else st)\<lparr>isInTag := True\<rparr>
                 else st);
          st2 = (if hasCloseTag text then st1\<lparr>isInTag := False\<rparr> else st1)
      in if \<not> isInTag st2 \<and> \<not> hasOpenTag text
         then st2\<lparr>conversationalBuffer := conversationalBuffer st2 @ text\<rparr> else st2)\<close>

text \<open>Lines 1720--1735: the package tags of \<open>searchText\<close>; the state and \<^verbatim>\<open>lastIndex\<close>.\<close>

definition scanPackageTags :: \<open>string \<Rightarrow> session \<Rightarrow> session \<times> nat\<close> where
  \<open>scanPackageTags searchText st =
     (let ms = execAll packageAt 0 0 searchText
      in (foldl (\<lambda>s (g, _). let packageName = js_trim g
                              in if packageName \<noteq> [] then addPackage ''Package detected: '' packageName s
                                 else s) st ms,
          foldl (\<lambda>_ (_, e). e) 0 ms))\<close>

text \<open>Lines 1741--1775: file boundaries inside the chunk.\<close>

definition trackFile :: \<open>string \<Rightarrow> session \<Rightarrow> session\<close> where
  \<open>trackFile text st =
     (let st1 = (if js_includes text ''<file path="'' then
                   (case findFirst filePathAt text of
                      None \<Rightarrow> st
                    | Some (path, _) \<Rightarrow> st\<lparr>currentFilePath := path, isInFile := True, currentFile := text\<rparr>)
                 else st)
      in if isInFile st1 \<and> js_includes (currentFile st1) ''</file>'' then
           (let st2 = st1\<lparr>isInFile := False\<rparr>;
                st3 = (if js_includes (currentFilePath st2) ''components/'' then
                         sendProgress
                           (Component (componentName (currentFilePath st2)) (currentFilePath st2)
                              (Suc (componentCount st2)))
                           (st2\<lparr>componentCount := Suc (componentCount st2)\<rparr>)
                       else if js_includes (currentFilePath st2) ''App.jsx'' then
                         sendProgress (App (currentFilePath st2)) st2
                       else st2)
            in st3\<lparr>currentFile := [], currentFilePath := []\<rparr>)
         else st1)\<close>

text \<open>One iteration of \<^verbatim>\<open>for await (const textPart of result.textStream)\<close>. The index
  \<^verbatim>\<open>Math.max(0, lastIndex - 50)\<close> is the truncated subtraction of \<^typ>\<open>nat\<close>.\<close>

definition ingest :: \<open>bool \<Rightarrow> string \<Rightarrow> session \<Rightarrow> session\<close> where
  \<open>ingest isEdit text st =
     (let st1 = st\<lparr>generatedCode := generatedCode st @ text, currentFile := currentFile st @ text\<rparr>;
          searchText = tagBuffer st1 @ text;
          st2 = sendProgress (Stream text) (trackTags text st1);
          (st3, lastIndex) = (if isEdit then scanPackageTags searchText st2 else (st2, 0));
          st4 = st3\<lparr>tagBuffer := drop (lastIndex - 50) searchText\<rparr>
      in trackFile text st4)\<close>

fun streamLoop :: \<open>bool \<Rightarrow> string list \<Rightarrow> session \<Rightarrow> session\<close> where
  \<open>streamLoop isEdit [] st = st\<close>
| \<open>streamLoop isEdit (text # rest) st = streamLoop isEdit rest (ingest isEdit text st)\<close>

section \<open>After the stream\<close>

text \<open>Lines 1780--1786.\<close>

definition flushConversation :: \<open>session \<Rightarrow> session\<close> where
  \<open>flushConversation st =
     (if js_trim (conversationalBuffer st) \<noteq> []
      then sendProgress (Conversation (js_trim (conversationalBuffer st))) st else st)\<close>

text \<open>Lines 1788--1810: the \<^verbatim>\<open><packages>\<close> blocks, for edits only.\<close>

definition packagesList :: \<open>string \<Rightarrow> string list\<close> where
  \<open>packagesList body = filter (\<lambda>pkg. 0 < length pkg) (map js_trim (splitSeps False (js_trim body)))\<close>

definition packagesPass :: \<open>bool \<Rightarrow> session \<Rightarrow> session\<close> where
  \<open>packagesPass isEdit st =
     (if isEdit then
        foldl (\<lambda>s (body, _). foldl (\<lambda>s' packageName. addPackage ''Package detected: '' packageName s')
                                s (packagesList body))
          st (execAll packagesAt 0 0 (generatedCode st))
      else st)\<close>

text \<open>Lines 1839--1881: the files of the whole output, and the progress sent for each.\<close>

definition parsedFiles :: \<open>string \<Rightarrow> (string \<times> string) list\<close> where
  \<open>parsedFiles code = map (\<lambda>((filePath, body), _). (filePath, js_trim body)) (execAll fileAt 0 0 code)\<close>

definition fileProgress :: \<open>bool \<Rightarrow> string \<times> string \<Rightarrow> session \<Rightarrow> session\<close> where
  \<open>fileProgress isEdit f st =
     (let filePath = fst f; content = snd f;
          st1 = (if isEdit then
                   foldl (\<lambda>s pkg. addPackage ''Package detected from imports: '' pkg s) st
                     (extractPackagesFromCode content)
                 else st)
      in if js_includes filePath ''components/'' then
           sendProgress (Component (componentName filePath) filePath (componentCount st1)) st1
         else if js_includes filePath ''App.jsx'' then sendProgress (App filePath) st1
         else st1)\<close>

definition filesPass :: \<open>bool \<Rightarrow> session \<Rightarrow> session\<close> where
  \<open>filesPass isEdit st = foldl (\<lambda>s f. fileProgress isEdit f s) st (parsedFiles (generatedCode st))\<close>

text \<open>Lines 1883--1885.\<close>

definition explanationOf :: \<open>string \<Rightarrow> string\<close> where
  \<open>explanationOf code =
     (case findFirst explanationAt code of
        Some body \<Rightarrow> js_trim body
      | None \<Rightarrow> ''Code generated successfully!'')\<close>

section \<open>Truncation checks\<close>

definition countChar :: \<open>char \<Rightarrow> string \<Rightarrow> nat\<close> where
  \<open>countChar c s = length (filter (\<lambda>d. d = c) s)\<close>

text \<open>\<^verbatim>\<open>Math.abs(openBraces - closeBraces)\<close>\<close>

definition braceDiff :: \<open>string \<Rightarrow> nat\<close> where
  \<open>braceDiff content =
     (let openBraces = countChar CHR ''{'' content; closeBraces = countChar CHR ''}'' content
      in if closeBraces \<le> openBraces then openBraces - closeBraces else closeBraces - openBraces)\<close>

text \<open>Lines 1902--1928, the body of the loop over the files (closed, or open to the end).\<close>

definition fileWarnings :: \<open>string \<times> string \<Rightarrow> string list\<close> where
  \<open>fileWarnings f =
     (let filePath = fst f; content = snd f
      in (if js_endsWith (js_trim content) ''<'' \<or> js_endsWith (js_trim content) ''</''
          then [''File '' @ filePath @ '' appears to have incomplete HTML tags''] else []) @
         (if isScriptPath filePath then
            (if 3 < braceDiff content
             then [''File '' @ filePath @ '' has severely unmatched braces ('' @
                     show_nat (countChar CHR ''{'' content) @ '' open, '' @
                     show_nat (countChar CHR ''}'' content) @ '' closed)'']
             else []) @
            (if length content < 20 \<and> js_includes content ''function'' \<and>
                \<not> js_includes content ''}''
             then [''File '' @ filePath @ '' appears severely truncated''] else [])
          else []))\<close>

text \<open>Lines 1887--1928.\<close>

definition truncationWarnings :: \<open>string \<Rightarrow> string list\<close> where
  \<open>truncationWarnings code =
     (let fileOpenCount = countMatches ''<file path="'' code;
          fileCloseCount = countMatches ''</file>'' code
      in (if fileOpenCount \<noteq> fileCloseCount
          then [''Unclosed file tags detected: '' @ show_nat fileOpenCount @ '' open, '' @
                  show_nat fileCloseCount @ '' closed'']
          else []) @
         concat (map (\<lambda>(f, _). fileWarnings f) (execAll fileOrEndAt 0 0 code)))\<close>

text \<open>Lines 1949--1973: which files the recovery regenerates.\<close>

definition isTruncated :: \<open>string \<times> string \<Rightarrow> bool\<close> where
  \<open>isTruncated f =
     (let filePath = fst f; content = snd f;
          hasEllipsis = (js_includes content ''...'' \<and> \<not> js_includes content ''...rest'' \<and>
                         \<not> js_includes content ''...props'' \<and> \<not> js_includes content ''spread'');
          endsAbruptly = (js_endsWith (js_trim content) ''...'' \<or> js_endsWith (js_trim content) '','' \<or>
                          js_endsWith (js_trim content) ''('');
          hasUnclosedTags = (js_includes content ''</'' \<and> findFirst closingTagAt content = None \<and>
                             js_includes content ''<'');
          tooShort = (length content < 50 \<and> isScriptPath filePath);
          hasUnmatchedBraces = (1 < braceDiff content)
      in (hasEllipsis \<and> endsAbruptly) \<or> hasUnclosedTags \<or>
         (tooShort \<and> \<not> js_includes content ''export'') \<or> hasUnmatchedBraces)\<close>

definition truncatedFiles :: \<open>string \<Rightarrow> string list\<close> where
  \<open>truncatedFiles code = map fst (filter isTruncated (map fst (execAll fileOrEndAt 0 0 code)))\<close>

section \<open>Truncation recovery\<close>

text \<open>
  \<^verbatim>\<open>generatedCode.replace(filePattern, replacement)\<close> with a global pattern: every match,
  left to right, is replaced by the expansion of the replacement string. The pattern
  has no capture group, so the expansion knows \<^verbatim>\<open>$$\<close>, \<^verbatim>\<open>$&\<close>,
  \<^verbatim>\<open>$`\<close> and \<^verbatim>\<open>$'\<close>; any other \<^verbatim>\<open>$\<close> stands for itself.
\<close>

fun expandReplacement :: \<open>string \<Rightarrow> string \<Rightarrow> string \<Rightarrow> string \<Rightarrow> string\<close> where
  \<open>expandReplacement matched preceding following [] = []\<close>
| \<open>expandReplacement matched preceding following [c] = [c]\<close>
| \<open>expandReplacement matched preceding following (c # d # r) =
     (if c = CHR ''$'' \<and> d = CHR ''$'' then CHR ''$'' # expandReplacement matched preceding following r
      else if c = CHR ''$'' \<and> d = CHR ''&'' then matched @ expandReplacement matched preceding following r
      else if c = CHR ''$'' \<and> d = CHR 0x60 then preceding @ expandReplacement matched preceding following r
      else if c = CHR ''$'' \<and> d = CHR 0x27 then following @ expandReplacement matched preceding following r
      else c # expandReplacement matched preceding following (d # r))\<close>

fun replaceAll :: \<open>(string \<Rightarrow> nat option) \<Rightarrow> string \<Rightarrow> nat \<Rightarrow> string \<Rightarrow> string \<Rightarrow> string\<close> where
  \<open>replaceAll at replacement skip preceding [] = []\<close>
| \<open>replaceAll at replacement skip preceding (c # cs) =
     (case skip of
        Suc k \<Rightarrow> replaceAll at replacement k (preceding @ [c]) cs
      | 0 \<Rightarrow> (case at (c # cs) of
                None \<Rightarrow> c # replaceAll at replacement 0 (preceding @ [c]) cs
              | Some n \<Rightarrow>
                  expandReplacement (take n (c # cs)) preceding (drop n (c # cs)) replacement @
                  replaceAll at replacement (n - 1) (preceding @ [c]) cs))\<close>

definition openMarker :: \<open>string \<Rightarrow> string\<close> where
  \<open>openMarker filePath = ''<file path="'' @ filePath @ ''">''\<close>

text \<open>The pattern built at lines 2030--2033: the path, escaped, is a literal;
  \<^verbatim>\<open>[\s\S]*?(?:</file>|$)\<close> runs to the first close marker, or to the end.\<close>

definition filePatternAt :: \<open>string \<Rightarrow> string \<Rightarrow> nat option\<close> where
  \<open>filePatternAt filePath s =
     (if js_startsWith s (openMarker filePath) then
        (case splitFirst ''</file>'' (drop (length (openMarker filePath)) s) of
           None \<Rightarrow> Some (length s)
         | Some (body, _) \<Rightarrow> Some (length (openMarker filePath) + length body + 7))
      else None)\<close>

text \<open>\<^verbatim>\<open>/```[\w]*\n([\s\S]*?)```/\<close>\<close>

definition fenceAt :: \<open>string \<Rightarrow> string option\<close> where
  \<open>fenceAt s =
     (if js_startsWith s ''```'' then
        (let r = dropWhile is_word (drop 3 s)
         in if js_startsWith r [CHR 0x0A] then map_option fst (splitFirst ''```'' (drop 1 r)) else None)
      else None)\<close>

text \<open>Lines 2035--2042.\<close>

definition cleanContent :: \<open>string \<Rightarrow> string\<close> where
  \<open>cleanContent completedContent =
     (if js_includes completedContent ''```'' then
        (case findFirst fenceAt completedContent of
           Some code \<Rightarrow> code
         | None \<Rightarrow> completedContent)
      else completedContent)\<close>

definition replacementFor :: \<open>string \<Rightarrow> string \<Rightarrow> string\<close> where
  \<open>replacementFor filePath content = openMarker filePath @ [CHR 0x0A] @ content @ [CHR 0x0A] @ ''</file>''\<close>

definition replaceFile :: \<open>string \<Rightarrow> string \<Rightarrow> string \<Rightarrow> string\<close> where
  \<open>replaceFile filePath content code =
     replaceAll (filePatternAt filePath) (replacementFor filePath content) 0 [] code\<close>

text \<open>The rest of a record after its open marker, through its close marker (or to the
  end of the output when it has none), and the text after the record.\<close>

definition recordEnd :: \<open>string \<Rightarrow> string \<times> string\<close> where
  \<open>recordEnd rest =
     (case splitFirst ''</file>'' rest of
        None \<Rightarrow> (rest, [])
      | Some (body, post) \<Rightarrow> (body @ ''</file>'', post))\<close>

text \<open>
  The follow-up call of lines 2010--2027. The generation itself is outside the handler:
  \<open>provider k filePath\<close> is the text its \<open>k\<close>-th call returns for the file, \<open>None\<close>
  when the call (or reading its stream) throws. Before the provider is asked, the call
  expression is evaluated, and it reads the names \<open>callReads\<close>. The names the handler
  has in scope there are \<open>declaredNames\<close>: the imports of lines 6 and 12, the clients of
  lines 14--27, \<^verbatim>\<open>prompt\<close> and \<^verbatim>\<open>model\<close> of line 77, and the locals of the loop.
  \<^verbatim>\<open>modelMapping\<close> (line 2011) and \<^verbatim>\<open>isGPT5\<close> (line 2019) are declared nowhere
  in the repository: reading an undeclared name throws a ReferenceError, inside the
  \<^verbatim>\<open>try\<close> of line 1990, and the result is \<open>None\<close> as for any other failure.
\<close>

definition callReads :: \<open>string list\<close> where
  \<open>callReads = [''streamText'', ''completionClient'', ''modelMapping'', ''model'',
     ''completionPrompt'', ''isGPT5'', ''appConfig'']\<close>

definition declaredNames :: \<open>string list\<close> where
  \<open>declaredNames = [''streamText'', ''appConfig'', ''groq'', ''anthropic'', ''openai'', ''prompt'',
     ''model'', ''filePath'', ''completionPrompt'', ''completionClient'']\<close>

definition followUp :: \<open>(nat \<Rightarrow> string \<Rightarrow> string option) \<Rightarrow> nat \<Rightarrow> string \<Rightarrow> string option\<close> where
  \<open>followUp provider k filePath =
     (if list_all (\<lambda>name. name \<in> set declaredNames) callReads then provider k filePath else None)\<close>

text \<open>The loop of lines 1984--2058 over the truncated files.\<close>

definition completing :: \<open>string \<Rightarrow> event\<close> where
  \<open>completing filePath = Info (''Completing '' @ filePath @ ''...'')\<close>

definition couldNotComplete :: \<open>string \<Rightarrow> event\<close> where
  \<open>couldNotComplete filePath =
     Warning (''Could not auto-complete '' @ filePath @ ''. Manual review may be needed.'') None\<close>

fun repairFiles :: \<open>(nat \<Rightarrow> string \<Rightarrow> string option) \<Rightarrow> nat \<Rightarrow> string list \<Rightarrow> session \<Rightarrow> session\<close> where
  \<open>repairFiles provider k [] st = st\<close>
| \<open>repairFiles provider k (filePath # rest) st =
     (let st1 = sendProgress (completing filePath) st;
          st2 = (case followUp provider k filePath of
                   Some completedContent \<Rightarrow>
                     st1\<lparr>generatedCode :=
                           replaceFile filePath (cleanContent completedContent) (generatedCode st1)\<rparr>
                 | None \<Rightarrow> sendProgress (couldNotComplete filePath) st1)
      in repairFiles provider (Suc k) rest st2)\<close>

text \<open>Lines 1930--2067: the state and the warnings left for the complete event.
  \<open>enableTruncationRecovery\<close> is the flag of the application's configuration.\<close>

definition recover :: \<open>bool \<Rightarrow> (nat \<Rightarrow> string \<Rightarrow> string option) \<Rightarrow> string list \<Rightarrow> session \<Rightarrow>
    session \<times> string list\<close> where
  \<open>recover enableTruncationRecovery provider warnings st =
     (if 0 < length warnings \<and> enableTruncationRecovery then
        (let st1 = sendProgress
                     (Warning ''Detected incomplete code generation. Attempting to complete...''
                        (Some warnings)) st;
             files = truncatedFiles (generatedCode st1)
         in if 0 < length files
            then (sendProgress (Info ''Truncation recovery complete'') (repairFiles provider 0 files st1), [])
            else (st1, warnings))
      else (st, warnings))\<close>

section \<open>The session\<close>

text \<open>Lines 1778--2079, from the end of the stream to the complete event.\<close>

definition afterStream :: \<open>bool \<Rightarrow> bool \<Rightarrow> (nat \<Rightarrow> string \<Rightarrow> string option) \<Rightarrow> session \<Rightarrow> session\<close> where
  \<open>afterStream isEdit enableTruncationRecovery provider st =
     (let st1 = filesPass isEdit (packagesPass isEdit (flushConversation st));
          files = parsedFiles (generatedCode st1);
          explanation = explanationOf (generatedCode st1);
          (st2, warnings) = recover enableTruncationRecovery provider
                              (truncationWarnings (generatedCode st1)) st1
      in sendProgress
           (Complete (generatedCode st2) explanation (length files) (componentCount st2)
              (if 0 < length (packagesToInstall st2) then Some (packagesToInstall st2) else None)
              (if 0 < length warnings then Some warnings else None)) st2)\<close>

text \<open>How the provider's text stream ends: normally, or by throwing an error with a
  message.\<close>

datatype stream_end = Ended | Threw string

text \<open>The \<^verbatim>\<open>catch\<close> block of lines 2109--2125.\<close>

definition handleError :: \<open>string \<Rightarrow> session \<Rightarrow> session\<close> where
  \<open>handleError message st =
     (if js_includes message ''tool call validation failed'' then
        sendProgress
          (Warning ''Package installation tool encountered an issue. Packages will be detected from imports instead.''
             None) st
      else sendProgress (Error message) st)\<close>

text \<open>
  A session from the first chunk on: the chunks the stream delivers, then its end. The
  result is everything written to the progress channel from there until the writer is
  closed (the status events sent while the request is prepared come before it).
\<close>

definition runSession :: \<open>bool \<Rightarrow> bool \<Rightarrow> (nat \<Rightarrow> string \<Rightarrow> string option) \<Rightarrow> string list \<Rightarrow>
    stream_end \<Rightarrow> event list\<close> where
  \<open>runSession isEdit enableTruncationRecovery provider chunks ending =
     sent (case ending of
             Ended \<Rightarrow> afterStream isEdit enableTruncationRecovery provider (streamLoop isEdit chunks initial)
           | Threw message \<Rightarrow> handleError message (streamLoop isEdit chunks initial))\<close>

section \<open>Reading the progress channel\<close>

fun is_package :: \<open>event \<Rightarrow> bool\<close> where
  \<open>is_package (Package name message) = True\<close>
| \<open>is_package e = False\<close>

fun is_terminal :: \<open>event \<Rightarrow> bool\<close> where
  \<open>is_terminal (Complete code explanation files components packages warnings) = True\<close>
| \<open>is_terminal (Error message) = True\<close>
| \<open>is_terminal e = False\<close>

fun packageName :: \<open>event \<Rightarrow> string\<close> where
  \<open>packageName (Package name message) = name\<close>
| \<open>packageName e = []\<close>

definition announced :: \<open>event list \<Rightarrow> string list\<close> where
  \<open>announced evs = map packageName (filter is_package evs)\<close>

text \<open>The package events sent so far are the collected packages, each once.\<close>

definition consistent :: \<open>session \<Rightarrow> bool\<close> where
  \<open>consistent st = (announced (sent st) = packagesToInstall st \<and> distinct (packagesToInstall st))\<close>

text \<open>
  What the streaming loop of an edit has done with the package tags: \<open>tagBuffer\<close> is the
  end of the output, every tag matched anywhere in the output so far is collected, and a
  tag that starts in the part of the output no longer in the buffer ends inside the output
  received so far, whatever the stream delivers next.
\<close>

definition tagsCollected :: \<open>session \<Rightarrow> bool\<close> where
  \<open>tagsCollected st =
     (\<exists>d. generatedCode st = d @ tagBuffer st \<and>
        (\<forall>p g n. packageAt (drop p (generatedCode st)) = Some (g, n) \<and> js_trim g \<noteq> [] \<longrightarrow>
           js_trim g \<in> set (packagesToInstall st)) \<and>
        (\<forall>p g n extra. p < length d \<and> packageAt (drop p (generatedCode st @ extra)) = Some (g, n) \<longrightarrow>
           p + n \<le> length (generatedCode st)))\<close>

fun is_completion :: \<open>event \<Rightarrow> bool\<close> where
  \<open>is_completion (Component name path index) = True\<close>
| \<open>is_completion (App path) = True\<close>
| \<open>is_completion e = False\<close>

text \<open>The files the file pass reports, and the event it sends for one.\<close>

definition progressPath :: \<open>string \<times> string \<Rightarrow> bool\<close> where
  \<open>progressPath f = (js_includes (fst f) ''components/'' \<or> js_includes (fst f) ''App.jsx'')\<close>

definition progressEvent :: \<open>nat \<Rightarrow> string \<times> string \<Rightarrow> event\<close> where
  \<open>progressEvent count f =
     (if js_includes (fst f) ''components/'' then Component (componentName (fst f)) (fst f) count
      else App (fst f))\<close>

text \<open>What the file pass adds to the channel.\<close>

definition filesPassEvents :: \<open>bool \<Rightarrow> session \<Rightarrow> event list\<close> where
  \<open>filesPassEvents isEdit st = drop (length (sent st)) (sent (filesPass isEdit st))\<close>

fun recordOf :: \<open>event \<Rightarrow> string \<times> string\<close> where
  \<open>recordOf (Component name path index) = (name, path)\<close>
| \<open>recordOf (App path) = (''App'', path)\<close>
| \<open>recordOf e = ([], [])\<close>

text \<open>The state in which the file pass starts, after the given chunks.\<close>

definition beforeFiles :: \<open>bool \<Rightarrow> string list \<Rightarrow> session\<close> where
  \<open>beforeFiles isEdit chunks = packagesPass isEdit (flushConversation (streamLoop isEdit chunks initial))\<close>

section \<open>Basic facts about the steps\<close>

lemma splitFirst_None_Cons: \<open>splitFirst p (c # cs) = None \<Longrightarrow> splitFirst p cs = None\<close>
  by (simp split: if_splits option.splits prod.splits)

lemma splitFirst_None_drop: \<open>splitFirst p s = None \<Longrightarrow> splitFirst p (drop n s) = None\<close>
proof (induction n arbitrary: s)
  case 0
  then show ?case by simp
next
  case (Suc n)
  show ?case
  proof (cases s)
    case Nil
    with Suc.prems show ?thesis by simp
  next
    case (Cons c cs)
    from Suc.prems have \<open>splitFirst p (c # cs) = None\<close> unfolding Cons .
    then have \<open>splitFirst p cs = None\<close> by (rule splitFirst_None_Cons)
    then show ?thesis using Cons Suc.IH by simp
  qed
qed


lemma sendProgress_fields [simp]:
  \<open>sent (sendProgress e st) = sent st @ [e]\<close>
  \<open>generatedCode (sendProgress e st) = generatedCode st\<close>
  \<open>tagBuffer (sendProgress e st) = tagBuffer st\<close>
  \<open>packagesToInstall (sendProgress e st) = packagesToInstall st\<close>
  \<open>componentCount (sendProgress e st) = componentCount st\<close>
  \<open>conversationalBuffer (sendProgress e st) = conversationalBuffer st\<close>
  \<open>isInTag (sendProgress e st) = isInTag st\<close>
  \<open>isInFile (sendProgress e st) = isInFile st\<close>
  \<open>currentFile (sendProgress e st) = currentFile st\<close>
  \<open>currentFilePath (sendProgress e st) = currentFilePath st\<close>
  by (simp_all add: sendProgress_def)

lemma trackTags_fields [simp]:
  \<open>generatedCode (trackTags text st) = generatedCode st\<close>
  \<open>tagBuffer (trackTags text st) = tagBuffer st\<close>
  \<open>packagesToInstall (trackTags text st) = packagesToInstall st\<close>
  \<open>componentCount (trackTags text st) = componentCount st\<close>
  by (simp_all add: trackTags_def Let_def)

lemma trackFile_fields [simp]:
  \<open>generatedCode (trackFile text st) = generatedCode st\<close>
  \<open>tagBuffer (trackFile text st) = tagBuffer st\<close>
  \<open>packagesToInstall (trackFile text st) = packagesToInstall st\<close>
  by (simp_all add: trackFile_def Let_def split: option.splits)

lemma foldl_invariant:
  assumes \<open>P st\<close> and \<open>\<And>s x. P s \<Longrightarrow> P (f s x)\<close>
  shows \<open>P (foldl f st xs)\<close>
  using assms(1) by (induction xs arbitrary: st) (simp_all add: assms(2))

lemma addPackage_fields [simp]:
  \<open>generatedCode (addPackage msg name st) = generatedCode st\<close>
  \<open>tagBuffer (addPackage msg name st) = tagBuffer st\<close>
  \<open>componentCount (addPackage msg name st) = componentCount st\<close>
  by (simp_all add: addPackage_def)

lemma scanPackageTags_fields [simp]:
  \<open>generatedCode (fst (scanPackageTags text st)) = generatedCode st\<close>
  \<open>tagBuffer (fst (scanPackageTags text st)) = tagBuffer st\<close>
  \<open>componentCount (fst (scanPackageTags text st)) = componentCount st\<close>
  unfolding scanPackageTags_def Let_def fst_conv
  by (rule foldl_invariant; simp split: prod.splits)+

lemma ingest_generatedCode [simp]: \<open>generatedCode (ingest isEdit text st) = generatedCode st @ text\<close>
  by (simp add: ingest_def Let_def case_prod_beta)

lemma streamLoop_generatedCode [simp]:
  \<open>generatedCode (streamLoop isEdit chunks st) = generatedCode st @ concat chunks\<close>
  by (induction chunks arbitrary: st) simp_all

lemma trackTags_sent:
  assumes \<open>\<And>t. \<not> P (Conversation t)\<close>
  shows \<open>filter P (sent (trackTags text st)) = filter P (sent st)\<close>
  by (simp add: trackTags_def Let_def assms)

lemma trackFile_sent:
  assumes \<open>\<And>n p i. \<not> P (Component n p i)\<close> and \<open>\<And>p. \<not> P (App p)\<close>
  shows \<open>filter P (sent (trackFile text st)) = filter P (sent st)\<close>
  by (simp add: trackFile_def Let_def assms split: option.splits)

lemma addPackage_sent:
  assumes \<open>\<And>n m. \<not> P (Package n m)\<close>
  shows \<open>filter P (sent (addPackage msg name st)) = filter P (sent st)\<close>
  by (simp add: addPackage_def assms)

lemma scanPackageTags_sent:
  assumes \<open>\<And>n m. \<not> P (Package n m)\<close>
  shows \<open>filter P (sent (fst (scanPackageTags text st))) = filter P (sent st)\<close>
  unfolding scanPackageTags_def Let_def fst_conv
  by (rule foldl_invariant) (simp_all add: addPackage_sent assms split: prod.splits)

lemma ingest_sent:
  assumes \<open>\<And>t. \<not> P (Conversation t)\<close> and \<open>\<And>t. \<not> P (Stream t)\<close>
    and \<open>\<And>n p i. \<not> P (Component n p i)\<close> and \<open>\<And>p. \<not> P (App p)\<close>
    and \<open>\<And>n m. isEdit \<Longrightarrow> \<not> P (Package n m)\<close>
  shows \<open>filter P (sent (ingest isEdit text st)) = filter P (sent st)\<close>
proof (cases isEdit)
  case True
  then show ?thesis
    by (simp add: ingest_def Let_def case_prod_beta trackFile_sent trackTags_sent
        scanPackageTags_sent assms)
next
  case False
  then show ?thesis
    by (simp add: ingest_def Let_def trackFile_sent trackTags_sent assms)
qed

lemma streamLoop_sent:
  assumes \<open>\<And>t. \<not> P (Conversation t)\<close> and \<open>\<And>t. \<not> P (Stream t)\<close>
    and \<open>\<And>n p i. \<not> P (Component n p i)\<close> and \<open>\<And>p. \<not> P (App p)\<close>
    and \<open>\<And>n m. isEdit \<Longrightarrow> \<not> P (Package n m)\<close>
  shows \<open>filter P (sent (streamLoop isEdit chunks st)) = filter P (sent st)\<close>
  by (induction chunks arbitrary: st) (simp_all add: ingest_sent assms)

lemma flushConversation_sent:
  assumes \<open>\<And>t. \<not> P (Conversation t)\<close>
  shows \<open>filter P (sent (flushConversation st)) = filter P (sent st)\<close>
  by (simp add: flushConversation_def assms)

lemma packagesPass_sent:
  assumes \<open>\<And>n m. isEdit \<Longrightarrow> \<not> P (Package n m)\<close>
  shows \<open>filter P (sent (packagesPass isEdit st)) = filter P (sent st)\<close>
proof (cases isEdit)
  case True
  have inner: \<open>filter P (sent (foldl (\<lambda>s' n. addPackage m n s') s ns)) = filter P (sent s)\<close> for m s ns
    by (induction ns arbitrary: s) (simp_all add: addPackage_sent assms True)
  have \<open>filter P (sent (foldl (\<lambda>s (body, _). foldl (\<lambda>s' n. addPackage ''Package detected: '' n s') s
            (packagesList body)) st ms)) = filter P (sent st)\<close> for ms :: \<open>(string \<times> nat) list\<close>
    by (induction ms arbitrary: st) (simp_all add: inner split: prod.splits)
  then show ?thesis by (simp add: packagesPass_def True)
next
  case False
  then show ?thesis by (simp add: packagesPass_def)
qed

lemma fileProgress_sent:
  assumes \<open>\<And>n p i. \<not> P (Component n p i)\<close> and \<open>\<And>p. \<not> P (App p)\<close>
    and \<open>\<And>n m. isEdit \<Longrightarrow> \<not> P (Package n m)\<close>
  shows \<open>filter P (sent (fileProgress isEdit f st)) = filter P (sent st)\<close>
proof -
  have inner: \<open>isEdit \<Longrightarrow> filter P (sent (foldl (\<lambda>s' n. addPackage m n s') s ns)) = filter P (sent s)\<close>
    for m s ns
    by (induction ns arbitrary: s) (simp_all add: addPackage_sent assms)
  show ?thesis by (simp add: fileProgress_def Let_def inner assms)
qed

lemma filesPass_sent:
  assumes \<open>\<And>n p i. \<not> P (Component n p i)\<close> and \<open>\<And>p. \<not> P (App p)\<close>
    and \<open>\<And>n m. isEdit \<Longrightarrow> \<not> P (Package n m)\<close>
  shows \<open>filter P (sent (filesPass isEdit st)) = filter P (sent st)\<close>
  unfolding filesPass_def
  by (rule foldl_invariant) (simp_all add: fileProgress_sent assms)

lemma repairFiles_sent:
  assumes \<open>\<And>m. \<not> P (Info m)\<close> and \<open>\<And>m w. \<not> P (Warning m w)\<close>
  shows \<open>filter P (sent (repairFiles provider k files st)) = filter P (sent st)\<close>
  by (induction files arbitrary: k st)
    (simp_all add: Let_def completing_def couldNotComplete_def assms split: option.splits)

lemma recover_sent:
  assumes \<open>\<And>m. \<not> P (Info m)\<close> and \<open>\<And>m w. \<not> P (Warning m w)\<close>
  shows \<open>filter P (sent (fst (recover enable provider warnings st))) = filter P (sent st)\<close>
  by (simp add: recover_def Let_def repairFiles_sent assms)


lemma flushConversation_fields [simp]:
  \<open>generatedCode (flushConversation st) = generatedCode st\<close>
  \<open>componentCount (flushConversation st) = componentCount st\<close>
  \<open>packagesToInstall (flushConversation st) = packagesToInstall st\<close>
  by (simp_all add: flushConversation_def)

lemma addPackages_fields [simp]:
  \<open>generatedCode (foldl (\<lambda>s' n. addPackage m n s') st ns) = generatedCode st\<close>
  \<open>componentCount (foldl (\<lambda>s' n. addPackage m n s') st ns) = componentCount st\<close>
  by (rule foldl_invariant; simp)+

lemma packagesPass_fields [simp]:
  \<open>generatedCode (packagesPass isEdit st) = generatedCode st\<close>
  \<open>componentCount (packagesPass isEdit st) = componentCount st\<close>
  unfolding packagesPass_def
  by (simp_all, (intro impI, rule foldl_invariant; simp split: prod.splits)+)

lemma fileProgress_fields [simp]:
  \<open>generatedCode (fileProgress isEdit f st) = generatedCode st\<close>
  \<open>componentCount (fileProgress isEdit f st) = componentCount st\<close>
  by (simp_all add: fileProgress_def Let_def)

lemma filesPass_fields [simp]:
  \<open>generatedCode (filesPass isEdit st) = generatedCode st\<close>
  \<open>componentCount (filesPass isEdit st) = componentCount st\<close>
  unfolding filesPass_def by (rule foldl_invariant; simp)+

lemma afterStream_sent:
  \<open>\<exists>code files components packages warnings.
     sent (afterStream isEdit enable provider st) =
       sent (fst (recover enable provider (truncationWarnings (generatedCode st))
                    (filesPass isEdit (packagesPass isEdit (flushConversation st))))) @
       [Complete code (explanationOf (generatedCode st)) files components packages warnings]\<close>
  by (simp add: afterStream_def Let_def case_prod_beta)

lemma afterStream_filter:
  assumes \<open>\<And>t. \<not> P (Conversation t)\<close>
    and \<open>\<And>n p i. \<not> P (Component n p i)\<close> and \<open>\<And>p. \<not> P (App p)\<close>
    and \<open>\<And>n m. isEdit \<Longrightarrow> \<not> P (Package n m)\<close>
    and \<open>\<And>m. \<not> P (Info m)\<close> and \<open>\<And>m w. \<not> P (Warning m w)\<close>
  shows \<open>\<exists>code files components packages warnings.
     filter P (sent (afterStream isEdit enable provider st)) =
       filter P (sent st) @
       filter P [Complete code (explanationOf (generatedCode st)) files components packages warnings]\<close>
proof -
  obtain code files components packages warnings where
    \<open>sent (afterStream isEdit enable provider st) =
       sent (fst (recover enable provider (truncationWarnings (generatedCode st))
                    (filesPass isEdit (packagesPass isEdit (flushConversation st))))) @
       [Complete code (explanationOf (generatedCode st)) files components packages warnings]\<close>
    using afterStream_sent by blast
  then have \<open>filter P (sent (afterStream isEdit enable provider st)) =
       filter P (sent st) @
       filter P [Complete code (explanationOf (generatedCode st)) files components packages warnings]\<close>
    by (simp only: filter_append recover_sent [of P, OF assms(5,6)]
        filesPass_sent [of P, OF assms(2,3,4)] packagesPass_sent [of isEdit P, OF assms(4)]
        flushConversation_sent [of P, OF assms(1)])
  then show ?thesis by blast
qed

section \<open>The look-back buffer\<close>

text \<open>
  Claim C5: the look-back buffer \<^verbatim>\<open>tagBuffer\<close> stays bounded in every session, fresh
  generation included. In the code a fresh-generation session never moves
  \<^verbatim>\<open>lastIndex\<close> from 0, so \<^verbatim>\<open>searchText.substring(Math.max(0, lastIndex - 50))\<close>
  keeps all of \<^verbatim>\<open>searchText\<close>, against its comment ``Keep last 50 chars'': after
  any chunks the buffer is the whole stream, the same text as \<^verbatim>\<open>generatedCode\<close>.
\<close>

theorem tagBuffer_keeps_whole_stream:
  \<open>tagBuffer (streamLoop False chunks initial) = concat chunks \<and>
   tagBuffer (streamLoop False chunks initial) = generatedCode (streamLoop False chunks initial)\<close>
proof -
  have step: \<open>tagBuffer (ingest False t st) = tagBuffer st @ t\<close> for t st
    by (simp add: ingest_def Let_def)
  have \<open>tagBuffer (streamLoop False chunks st) = tagBuffer st @ concat chunks\<close> for st
  proof (induction chunks arbitrary: st)
    case Nil
    then show ?case by simp
  next
    case (Cons t chunks)
    have \<open>tagBuffer (streamLoop False (t # chunks) st) = tagBuffer (ingest False t st) @ concat chunks\<close>
      using Cons.IH by simp
    then show ?case by (simp add: step)
  qed
  then have \<open>tagBuffer (streamLoop False chunks initial) = concat chunks\<close>
    by (simp add: initial_def)
  moreover have \<open>generatedCode (streamLoop False chunks initial) = concat chunks\<close>
    by (simp add: initial_def)
  ultimately show ?thesis by simp
qed

text \<open>Two chunks of a fresh-generation session: the buffer holds all 77 characters.\<close>

theorem tagBuffer_exceeds_fifty:
  \<open>length (tagBuffer (streamLoop False
      [''<file path="src/App.jsx">export default function App() {'', '' return null }</file>'']
      initial)) = 77\<close>
  using tagBuffer_keeps_whole_stream
    [of \<open>[''<file path="src/App.jsx">export default function App() {'', '' return null }</file>'']\<close>]
  by simp

section \<open>Dependencies in a fresh-generation session\<close>

text \<open>
  Claim C8: when the edit-mode flag is false, no package event is emitted at all, whatever
  the stream contains and however the session ends: the package tags, the packages
  blocks and the imports of the files are each read only under \<^verbatim>\<open>if (isEdit)\<close>.
\<close>

theorem fresh_generation_announces_no_package:
  \<open>filter is_package (runSession False enable provider chunks ending) = []\<close>
proof (cases ending)
  case Ended
  have \<open>\<exists>code files components packages warnings.
     filter is_package (sent (afterStream False enable provider (streamLoop False chunks initial))) =
       filter is_package (sent (streamLoop False chunks initial)) @
       filter is_package [Complete code (explanationOf (generatedCode (streamLoop False chunks initial)))
          files components packages warnings]\<close>
    by (rule afterStream_filter) simp_all
  then show ?thesis
    using Ended by (auto simp add: runSession_def streamLoop_sent [of is_package False] initial_def)
next
  case (Threw message)
  then show ?thesis
    by (simp add: runSession_def handleError_def streamLoop_sent [of is_package False] initial_def)
qed

section \<open>Terminal events\<close>

text \<open>
  Claim C6: every session's event stream is terminated by exactly one terminal event,
  complete or error. A session whose stream ends normally sends exactly one complete
  event and no error event. A session whose stream throws sends exactly one error event,
  unless the message contains \<^verbatim>\<open>tool call validation failed\<close>: then the handler
  sends a warning only, and the channel is closed with neither terminal event (the
  comment there says ``Continue processing'', but the handler is the end of the session).
\<close>

theorem session_terminal_events:
  \<open>(\<exists>code explanation files components packages warnings.
      filter is_terminal (runSession isEdit enable provider chunks Ended) =
        [Complete code explanation files components packages warnings]) \<and>
   filter is_terminal (runSession isEdit enable provider chunks (Threw message)) =
     (if js_includes message ''tool call validation failed'' then [] else [Error message])\<close>
proof
  have \<open>\<exists>code files components packages warnings.
     filter is_terminal (sent (afterStream isEdit enable provider (streamLoop isEdit chunks initial))) =
       filter is_terminal (sent (streamLoop isEdit chunks initial)) @
       filter is_terminal [Complete code (explanationOf (generatedCode (streamLoop isEdit chunks initial)))
          files components packages warnings]\<close>
    by (rule afterStream_filter) simp_all
  then show \<open>\<exists>code explanation files components packages warnings.
      filter is_terminal (runSession isEdit enable provider chunks Ended) =
        [Complete code explanation files components packages warnings]\<close>
    by (auto simp add: runSession_def streamLoop_sent [of is_terminal isEdit] initial_def)
next
  show \<open>filter is_terminal (runSession isEdit enable provider chunks (Threw message)) =
     (if js_includes message ''tool call validation failed'' then [] else [Error message])\<close>
    by (simp add: runSession_def handleError_def streamLoop_sent [of is_terminal isEdit] initial_def)
qed

text \<open>The failing session: one chunk, then the stream throws a tool validation error.\<close>

theorem session_without_terminal_event:
  \<open>filter is_terminal
     (runSession False True (\<lambda>k f. None) [''<file path="a.txt">hi</file>'']
        (Threw ''tool call validation failed'')) = []\<close>
proof -
  have h: \<open>js_includes ''tool call validation failed'' ''tool call validation failed''\<close>
    by code_simp
  show ?thesis
    using session_terminal_events [of False True \<open>\<lambda>k f. None\<close> \<open>[''<file path="a.txt">hi</file>'']\<close>
        \<open>''tool call validation failed''\<close>] h
    by simp
qed

section \<open>The explanation of the complete event\<close>

lemma explanation_never_closed:
  \<open>splitFirst ''</explanation>'' (drop k s) = None \<Longrightarrow> k \<le> 13 \<Longrightarrow> findFirst explanationAt s = None\<close>
proof (induction s arbitrary: k)
  case Nil
  then show ?case by (simp add: explanationAt_def js_startsWith_def)
next
  case (Cons c cs)
  have \<open>drop 13 (c # cs) = drop (13 - k) (drop k (c # cs))\<close> using Cons.prems(2) by simp
  then have here: \<open>splitFirst ''</explanation>'' (drop 13 (c # cs)) = None\<close>
    using Cons.prems(1) splitFirst_None_drop by metis
  have \<open>splitFirst ''</explanation>'' (drop (k - 1) cs) = None\<close>
  proof (cases k)
    case 0
    from Cons.prems(1) have \<open>splitFirst ''</explanation>'' (c # cs) = None\<close> unfolding 0 drop_0 .
    then have \<open>splitFirst ''</explanation>'' cs = None\<close> by (rule splitFirst_None_Cons)
    then show ?thesis using 0 by simp
  next
    case (Suc j)
    with Cons.prems(1) show ?thesis by simp
  qed
  then have \<open>findFirst explanationAt cs = None\<close> using Cons.IH [of \<open>k - 1\<close>] Cons.prems(2) by simp
  moreover have \<open>explanationAt (c # cs) = None\<close> using here by (simp add: explanationAt_def)
  ultimately show ?case by simp
qed

lemma findFirst_explanation:
  \<open>findFirst explanationAt code =
     (case splitFirst ''<explanation>'' code of
        None \<Rightarrow> None
      | Some (pre, rest) \<Rightarrow> map_option fst (splitFirst ''</explanation>'' rest))\<close>
proof (induction code)
  case Nil
  then show ?case by (simp add: explanationAt_def js_startsWith_def)
next
  case (Cons c cs)
  show ?case
  proof (cases \<open>js_startsWith (c # cs) ''<explanation>''\<close>)
    case True
    have at: \<open>explanationAt (c # cs) = map_option fst (splitFirst ''</explanation>'' (drop 13 (c # cs)))\<close>
      using True by (simp add: explanationAt_def split: option.splits prod.splits)
    have len: \<open>length ''<explanation>'' = 13\<close> by simp
    have sf: \<open>splitFirst ''<explanation>'' (c # cs) = Some ([], drop 13 (c # cs))\<close>
      using True by (simp only: splitFirst.simps if_True len)
    show ?thesis
    proof (cases \<open>splitFirst ''</explanation>'' (drop 13 (c # cs))\<close>)
      case None
      then have \<open>splitFirst ''</explanation>'' (drop 12 cs) = None\<close> by simp
      then have \<open>findFirst explanationAt cs = None\<close> by (rule explanation_never_closed) simp
      then have \<open>findFirst explanationAt (c # cs) = None\<close> using at None by simp
      then show ?thesis using sf None by simp
    next
      case (Some a)
      then have \<open>findFirst explanationAt (c # cs) = Some (fst a)\<close> using at by simp
      then show ?thesis using sf Some by simp
    qed
  next
    case False
    then have at: \<open>explanationAt (c # cs) = None\<close> by (simp add: explanationAt_def)
    have \<open>splitFirst ''<explanation>'' (c # cs) =
      (case splitFirst ''<explanation>'' cs of None \<Rightarrow> None | Some (b, a) \<Rightarrow> Some (c # b, a))\<close>
      using False by simp
    moreover have \<open>findFirst explanationAt (c # cs) = findFirst explanationAt cs\<close>
      using at by simp
    ultimately show ?thesis using Cons.IH by (simp split: option.splits)
  qed
qed

text \<open>
  Claim C10, as amended: a session that reaches its complete event sends exactly one, and
  its explanation is the trimmed content of the first
  \<^verbatim>\<open><explanation>...</explanation>\<close> block of the streamed output when there is one
  (the first open marker, up to the first close marker after it), and otherwise the
  string \<^verbatim>\<open>Code generated successfully!\<close>. The trimmed content of a blank block is
  the empty string.
\<close>

theorem complete_explanation:
  \<open>(\<exists>code files components packages warnings.
      filter is_terminal (runSession isEdit enable provider chunks Ended) =
        [Complete code (explanationOf (concat chunks)) files components packages warnings]) \<and>
   explanationOf output =
     (case splitFirst ''<explanation>'' output of
        None \<Rightarrow> ''Code generated successfully!''
      | Some (pre, rest) \<Rightarrow>
          (case splitFirst ''</explanation>'' rest of
             None \<Rightarrow> ''Code generated successfully!''
           | Some (body, post) \<Rightarrow> js_trim body))\<close>
proof
  have \<open>\<exists>code files components packages warnings.
     filter is_terminal (sent (afterStream isEdit enable provider (streamLoop isEdit chunks initial))) =
       filter is_terminal (sent (streamLoop isEdit chunks initial)) @
       filter is_terminal [Complete code (explanationOf (generatedCode (streamLoop isEdit chunks initial)))
          files components packages warnings]\<close>
    by (rule afterStream_filter) simp_all
  then show \<open>\<exists>code files components packages warnings.
      filter is_terminal (runSession isEdit enable provider chunks Ended) =
        [Complete code (explanationOf (concat chunks)) files components packages warnings]\<close>
    by (auto simp add: runSession_def streamLoop_sent [of is_terminal isEdit] initial_def)
next
  show \<open>explanationOf output =
     (case splitFirst ''<explanation>'' output of
        None \<Rightarrow> ''Code generated successfully!''
      | Some (pre, rest) \<Rightarrow>
          (case splitFirst ''</explanation>'' rest of
             None \<Rightarrow> ''Code generated successfully!''
           | Some (body, post) \<Rightarrow> js_trim body))\<close>
    by (simp add: explanationOf_def findFirst_explanation split: option.splits prod.splits)
qed

text \<open>
  Claim C10 as stated says the explanation is never empty. A stream holding a blank
  explanation block completes with the empty explanation.
\<close>

theorem blank_explanation_is_empty:
  \<open>runSession False False (\<lambda>k f. None) [''<explanation> </explanation>''] Ended =
     [Stream ''<explanation> </explanation>'',
      Complete ''<explanation> </explanation>'' [] 0 0 None None]\<close>
  by code_simp

section \<open>Dependencies are announced once\<close>

lemma consistent_cong:
  \<open>filter is_package (sent st') = filter is_package (sent st) \<Longrightarrow>
   packagesToInstall st' = packagesToInstall st \<Longrightarrow> consistent st' = consistent st\<close>
  by (simp add: consistent_def announced_def)

lemma consistent_addPackage: \<open>consistent st \<Longrightarrow> consistent (addPackage msg name st)\<close>
  by (simp add: consistent_def announced_def addPackage_def)

lemma consistent_addPackages:
  \<open>consistent st \<Longrightarrow> consistent (foldl (\<lambda>s n. addPackage msg n s) st names)\<close>
  by (rule foldl_invariant) (simp_all add: consistent_addPackage)

lemma consistent_scanPackageTags: \<open>consistent st \<Longrightarrow> consistent (fst (scanPackageTags text st))\<close>
  unfolding scanPackageTags_def Let_def fst_conv
  by (rule foldl_invariant) (simp_all add: consistent_addPackage split: prod.splits)

lemma consistent_trackTags: \<open>consistent (trackTags text st) = consistent st\<close>
  by (rule consistent_cong) (simp_all add: trackTags_sent)

lemma consistent_trackFile: \<open>consistent (trackFile text st) = consistent st\<close>
  by (rule consistent_cong) (simp_all add: trackFile_sent)

lemma consistent_ingest: \<open>consistent st \<Longrightarrow> consistent (ingest isEdit text st)\<close>
proof -
  assume a: \<open>consistent st\<close>
  let ?st1 = \<open>st\<lparr>generatedCode := generatedCode st @ text, currentFile := currentFile st @ text\<rparr>\<close>
  let ?st2 = \<open>sendProgress (Stream text) (trackTags text ?st1)\<close>
  have \<open>consistent ?st1 = consistent st\<close> by (rule consistent_cong) simp_all
  moreover have \<open>consistent ?st2 = consistent (trackTags text ?st1)\<close>
    by (rule consistent_cong) simp_all
  ultimately have c2: \<open>consistent ?st2\<close> using a by (simp add: consistent_trackTags)
  have upd: \<open>consistent (s\<lparr>tagBuffer := b\<rparr>) = consistent s\<close> for s b
    by (rule consistent_cong) simp_all
  show ?thesis
    using c2 consistent_scanPackageTags [OF c2]
    by (simp add: ingest_def Let_def case_prod_beta consistent_trackFile upd)
qed

lemma consistent_streamLoop: \<open>consistent st \<Longrightarrow> consistent (streamLoop isEdit chunks st)\<close>
  by (induction chunks arbitrary: st) (simp_all add: consistent_ingest)

lemma consistent_flushConversation: \<open>consistent (flushConversation st) = consistent st\<close>
  by (rule consistent_cong) (simp_all add: flushConversation_sent)

lemma consistent_packagesPass: \<open>consistent st \<Longrightarrow> consistent (packagesPass isEdit st)\<close>
  unfolding packagesPass_def
  by (simp, intro impI, rule foldl_invariant) (simp_all add: consistent_addPackages split: prod.splits)

lemma consistent_fileProgress: \<open>consistent st \<Longrightarrow> consistent (fileProgress isEdit f st)\<close>
proof -
  assume a: \<open>consistent st\<close>
  have send: \<open>\<not> is_package e \<Longrightarrow> consistent (sendProgress e s) = consistent s\<close> for e s
    by (rule consistent_cong) simp_all
  show ?thesis
    using a consistent_addPackages [OF a]
    by (simp add: fileProgress_def Let_def send)
qed

lemma consistent_filesPass: \<open>consistent st \<Longrightarrow> consistent (filesPass isEdit st)\<close>
  unfolding filesPass_def by (rule foldl_invariant) (simp_all add: consistent_fileProgress)

lemma repairFiles_packages [simp]:
  \<open>packagesToInstall (repairFiles provider k files st) = packagesToInstall st\<close>
  by (induction files arbitrary: k st) (simp_all add: Let_def split: option.splits)

lemma recover_packages [simp]:
  \<open>packagesToInstall (fst (recover enable provider warnings st)) = packagesToInstall st\<close>
  by (simp add: recover_def Let_def)

lemma consistent_recover: \<open>consistent (fst (recover enable provider warnings st)) = consistent st\<close>
  by (rule consistent_cong) (simp_all add: recover_sent)

lemma consistent_afterStream: \<open>consistent st \<Longrightarrow> consistent (afterStream isEdit enable provider st)\<close>
proof -
  assume a: \<open>consistent st\<close>
  have send: \<open>\<not> is_package e \<Longrightarrow> consistent (sendProgress e s) = consistent s\<close> for e s
    by (rule consistent_cong) simp_all
  have \<open>consistent (filesPass isEdit (packagesPass isEdit (flushConversation st)))\<close>
    using a by (simp add: consistent_filesPass consistent_packagesPass consistent_flushConversation)
  then show ?thesis
    by (simp add: afterStream_def Let_def case_prod_beta send consistent_recover)
qed

lemma consistent_handleError: \<open>consistent (handleError message st) = consistent st\<close>
  by (rule consistent_cong) (simp_all add: handleError_def)

lemma consistent_initial: \<open>consistent initial\<close>
  by (simp add: consistent_def announced_def initial_def)

lemma count_distinct:
  \<open>distinct xs \<Longrightarrow> length (filter (\<lambda>x. x = a) xs) = (if a \<in> set xs then 1 else 0)\<close>
  by (induction xs) auto

text \<open>A match of the package-tag expression: its shape, and that it depends only on the
  characters it covers.\<close>

lemma packageAt_shape:
  assumes \<open>packageAt t = Some (g, n)\<close>
  shows \<open>t = ''<package>'' @ g @ ''</package>'' @ drop n t \<and> n = 19 + length g \<and> g \<noteq> [] \<and>
         CHR ''<'' \<notin> set g\<close>
proof -
  let ?P = \<open>\<lambda>c. c \<noteq> CHR ''<''\<close>
  let ?r = \<open>drop 9 t\<close>
  have len9: \<open>length ''<package>'' = 9\<close> and len10: \<open>length ''</package>'' = 10\<close> by simp_all
  from assms have sw: \<open>js_startsWith t ''<package>''\<close>
    by (simp add: packageAt_def Let_def split: if_splits)
  with assms have g: \<open>g = takeWhile ?P ?r\<close> and ne: \<open>g \<noteq> []\<close>
    and sw2: \<open>js_startsWith (dropWhile ?P ?r) ''</package>''\<close> and n: \<open>n = 9 + length g + 10\<close>
    by (auto simp add: packageAt_def Let_def split: if_splits)
  have \<open>take 9 t = ''<package>''\<close> using sw unfolding js_startsWith_def len9 .
  then have t1: \<open>t = ''<package>'' @ ?r\<close> by (metis append_take_drop_id)
  have r: \<open>?r = g @ dropWhile ?P ?r\<close> unfolding g by simp
  have \<open>take 10 (dropWhile ?P ?r) = ''</package>''\<close> using sw2 unfolding js_startsWith_def len10 .
  then have r': \<open>dropWhile ?P ?r = ''</package>'' @ drop 10 (dropWhile ?P ?r)\<close>
    by (metis append_take_drop_id)
  have \<open>drop n t = drop 10 (drop (length g) ?r)\<close> unfolding n by (simp add: add.commute)
  also have \<open>drop (length g) ?r = dropWhile ?P ?r\<close> using r by (metis append_eq_conv_conj)
  finally have d: \<open>drop n t = drop 10 (dropWhile ?P ?r)\<close> .
  have \<open>t = ''<package>'' @ g @ ''</package>'' @ drop n t\<close>
    unfolding d using t1 r r' by metis
  moreover have \<open>CHR ''<'' \<notin> set g\<close> unfolding g by (auto dest: set_takeWhileD)
  ultimately show ?thesis using ne n by simp
qed

lemma packageAt_intro:
  assumes \<open>g \<noteq> []\<close> and \<open>CHR ''<'' \<notin> set g\<close>
  shows \<open>packageAt (''<package>'' @ g @ ''</package>'' @ rest) = Some (g, 19 + length g)\<close>
proof -
  let ?P = \<open>\<lambda>c. c \<noteq> CHR ''<''\<close>
  have all: \<open>\<And>x. x \<in> set g \<Longrightarrow> ?P x\<close> using assms(2) by auto
  have tw: \<open>takeWhile ?P (g @ ''</package>'' @ rest) = g\<close>
    using all by (simp add: takeWhile_append2)
  have dw: \<open>dropWhile ?P (g @ ''</package>'' @ rest) = ''</package>'' @ rest\<close>
    using all by (simp add: dropWhile_append2)
  have sw: \<open>js_startsWith (''<package>'' @ g @ ''</package>'' @ rest) ''<package>''\<close>
    by (simp add: js_startsWith_def)
  have dr: \<open>drop 9 (''<package>'' @ g @ ''</package>'' @ rest) = g @ ''</package>'' @ rest\<close>
    by simp
  have sw2: \<open>js_startsWith (''</package>'' @ rest) ''</package>''\<close>
    by (simp add: js_startsWith_def)
  show ?thesis
    unfolding packageAt_def Let_def dr tw dw using sw sw2 assms(1) by simp
qed

lemma packageAt_prefix:
  assumes \<open>packageAt t = Some (g, n)\<close> and \<open>take n t' = take n t\<close>
  shows \<open>packageAt t' = Some (g, n)\<close>
proof -
  let ?m = \<open>''<package>'' @ g @ ''</package>''\<close>
  note sh = packageAt_shape [OF assms(1)]
  have t: \<open>t = ?m @ drop n t\<close> using sh by (metis append.assoc)
  have n: \<open>n = 19 + length g\<close> and g: \<open>g \<noteq> []\<close> \<open>CHR ''<'' \<notin> set g\<close> using sh by blast+
  have \<open>length ?m = n\<close> using n by simp
  then have \<open>take n t = ?m\<close> using t by (metis append_eq_conv_conj)
  then have \<open>t' = ?m @ drop n t'\<close> using assms(2) by (metis append_take_drop_id)
  then have \<open>packageAt t' = packageAt (''<package>'' @ g @ ''</package>'' @ drop n t')\<close> by simp
  then show ?thesis using packageAt_intro [OF g] n by simp
qed

lemma packageAt_needs_open:
  \<open>xs \<noteq> [] \<Longrightarrow> CHR ''<'' \<notin> set xs \<Longrightarrow> packageAt (xs @ ys) = None\<close>
  by (cases xs) (auto simp add: packageAt_def js_startsWith_def)

lemma packageAt_not_close: \<open>packageAt (''</package>'' @ ys) = None\<close>
  by (simp add: packageAt_def js_startsWith_def)


text \<open>No match starts inside another one.\<close>

lemma packageAt_no_overlap:
  assumes \<open>packageAt t = Some (g, n)\<close> and \<open>0 < j\<close> and \<open>j < n\<close>
  shows \<open>packageAt (drop j t) = None\<close>
proof -
  define a where \<open>a = ''package>'' @ g\<close>
  define c' where \<open>c' = ''/package>''\<close>
  define rest where \<open>rest = drop n t\<close>
  note sh = packageAt_shape [OF assms(1)]
  have \<open>t = ''<package>'' @ g @ ''</package>'' @ drop n t\<close> using sh by blast
  then have t: \<open>t = CHR ''<'' # (a @ (CHR ''<'' # c') @ rest)\<close>
    unfolding a_def c'_def rest_def by simp
  have la: \<open>length a = 8 + length g\<close> and lc: \<open>length c' = 9\<close> by (simp_all add: a_def c'_def)
  have n: \<open>n = Suc (length a + 10)\<close> using sh la by simp
  have na: \<open>CHR ''<'' \<notin> set a\<close> using sh by (simp add: a_def)
  have nc: \<open>CHR ''<'' \<notin> set c'\<close> by (simp add: c'_def)
  have close: \<open>packageAt ((CHR ''<'' # c') @ rest) = None\<close>
    using packageAt_not_close [of rest] by (simp add: c'_def)
  obtain k where j: \<open>j = Suc k\<close> using assms(2) by (cases j) simp_all
  have k: \<open>k < length a + 10\<close> using assms(3) n j by simp
  have d: \<open>drop j t = drop k (a @ (CHR ''<'' # c') @ rest)\<close> unfolding j by (subst t) simp
  consider (inside) \<open>k < length a\<close> | (close) \<open>k = length a\<close> | (after) \<open>length a < k\<close>
    by linarith
  then show ?thesis
  proof cases
    case inside
    then have e: \<open>drop k (a @ (CHR ''<'' # c') @ rest) = drop k a @ (CHR ''<'' # c') @ rest\<close> by simp
    have 1: \<open>drop k a \<noteq> []\<close> using inside by simp
    have 2: \<open>CHR ''<'' \<notin> set (drop k a)\<close> using na set_drop_subset by fastforce
    show ?thesis unfolding d e by (rule packageAt_needs_open [OF 1 2])
  next
    case close
    then have \<open>drop k (a @ (CHR ''<'' # c') @ rest) = (CHR ''<'' # c') @ rest\<close> by simp
    then show ?thesis unfolding d using \<open>packageAt ((CHR ''<'' # c') @ rest) = None\<close> by (simp only:)
  next
    case after
    define i where \<open>i = k - length a - 1\<close>
    have i: \<open>i < length c'\<close> using after k lc by (simp add: i_def)
    have ki: \<open>k - length a = Suc i\<close> using after by (simp add: i_def)
    have \<open>drop k (a @ (CHR ''<'' # c') @ rest) = drop (k - length a) ((CHR ''<'' # c') @ rest)\<close>
      using after by simp
    also have \<open>\<dots> = drop i c' @ rest\<close> unfolding ki using i by simp
    finally have e: \<open>drop k (a @ (CHR ''<'' # c') @ rest) = drop i c' @ rest\<close> .
    have 1: \<open>drop i c' \<noteq> []\<close> using i by simp
    have 2: \<open>CHR ''<'' \<notin> set (drop i c')\<close> using nc set_drop_subset by fastforce
    show ?thesis unfolding d e by (rule packageAt_needs_open [OF 1 2])
  qed
qed

text \<open>The \<^verbatim>\<open>exec\<close> loop of a global expression whose matches do not overlap returns every
  match of the string, and only matches of the string; \<^verbatim>\<open>lastIndex\<close> is the end of the
  last one.\<close>

lemma execAll_complete:
  assumes A: \<open>\<And>t g n j. at t = Some (g, n) \<Longrightarrow> 0 < j \<Longrightarrow> j < n \<Longrightarrow> at (drop j t) = None\<close>
  shows \<open>(\<And>j. j < skip \<Longrightarrow> at (drop j s) = None) \<Longrightarrow> at (drop p s) = Some (g, n) \<Longrightarrow>
         p < length s \<Longrightarrow> (g, pos + p + n) \<in> set (execAll at skip pos s)\<close>
proof (induction s arbitrary: skip pos p)
  case Nil
  then show ?case by simp
next
  case (Cons c cs)
  show ?case
  proof (cases skip)
    case (Suc k)
    have \<open>p \<noteq> 0\<close>
    proof
      assume \<open>p = 0\<close>
      then have \<open>at (drop p (c # cs)) = None\<close> using Cons.prems(1) [of 0] Suc by simp
      then show False using Cons.prems(2) by simp
    qed
    then obtain p' where p: \<open>p = Suc p'\<close> by (cases p) simp_all
    have \<open>(g, Suc pos + p' + n) \<in> set (execAll at k (Suc pos) cs)\<close>
    proof (rule Cons.IH)
      show \<open>at (drop j cs) = None\<close> if \<open>j < k\<close> for j
        using Cons.prems(1) [of \<open>Suc j\<close>] that Suc by simp
      show \<open>at (drop p' cs) = Some (g, n)\<close> using Cons.prems(2) p by simp
      show \<open>p' < length cs\<close> using Cons.prems(3) p by simp
    qed
    then show ?thesis using Suc p by simp
  next
    case 0
    show ?thesis
    proof (cases \<open>at (c # cs)\<close>)
      case None
      then have \<open>p \<noteq> 0\<close> using Cons.prems(2) by (cases p) simp_all
      then obtain p' where p: \<open>p = Suc p'\<close> by (cases p) simp_all
      have \<open>(g, Suc pos + p' + n) \<in> set (execAll at 0 (Suc pos) cs)\<close>
      proof (rule Cons.IH)
        show \<open>at (drop j cs) = None\<close> if \<open>j < 0\<close> for j using that by simp
        show \<open>at (drop p' cs) = Some (g, n)\<close> using Cons.prems(2) p by simp
        show \<open>p' < length cs\<close> using Cons.prems(3) p by simp
      qed
      then show ?thesis using 0 None p by simp
    next
      case (Some m)
      obtain g0 n0 where m: \<open>m = (g0, n0)\<close> by (cases m)
      show ?thesis
      proof (cases p)
        case 0
        then have \<open>g = g0\<close> \<open>n = n0\<close> using Cons.prems(2) Some m by simp_all
        then show ?thesis using \<open>skip = 0\<close> Some m 0 by simp
      next
        case (Suc p')
        have \<open>(g, Suc pos + p' + n) \<in> set (execAll at (n0 - 1) (Suc pos) cs)\<close>
        proof (rule Cons.IH)
          show \<open>at (drop j cs) = None\<close> if \<open>j < n0 - 1\<close> for j
          proof -
            have \<open>at (drop (Suc j) (c # cs)) = None\<close>
              using Some m that by (intro A [of \<open>c # cs\<close> g0 n0]) simp_all
            then show ?thesis by simp
          qed
          show \<open>at (drop p' cs) = Some (g, n)\<close> using Cons.prems(2) Suc by simp
          show \<open>p' < length cs\<close> using Cons.prems(3) Suc by simp
        qed
        then show ?thesis using \<open>skip = 0\<close> Some m Suc by simp
      qed
    qed
  qed
qed

lemma execAll_sound:
  \<open>(g, e) \<in> set (execAll at skip pos s) \<Longrightarrow>
   \<exists>q n. q < length s \<and> at (drop q s) = Some (g, n) \<and> e = pos + q + n\<close>
proof (induction s arbitrary: skip pos)
  case Nil
  then show ?case by simp
next
  case (Cons c cs)
  have later: \<open>\<exists>q n. q < length (c # cs) \<and> at (drop q (c # cs)) = Some (g, n) \<and> e = pos + q + n\<close>
    if h: \<open>(g, e) \<in> set (execAll at k (Suc pos) cs)\<close> for k
  proof -
    obtain q n where \<open>q < length cs\<close> \<open>at (drop q cs) = Some (g, n)\<close> \<open>e = Suc pos + q + n\<close>
      using Cons.IH [OF h] by blast
    then have \<open>Suc q < length (c # cs) \<and> at (drop (Suc q) (c # cs)) = Some (g, n) \<and> e = pos + Suc q + n\<close>
      by simp
    then show ?thesis by blast
  qed
  show ?case
  proof (cases skip)
    case (Suc k)
    then show ?thesis using Cons.prems later by simp
  next
    case 0
    show ?thesis
    proof (cases \<open>at (c # cs)\<close>)
      case None
      then show ?thesis using 0 Cons.prems later by simp
    next
      case (Some m)
      obtain g0 n0 where m: \<open>m = (g0, n0)\<close> by (cases m)
      from Cons.prems 0 Some m
      consider \<open>(g, e) = (g0, pos + n0)\<close> | \<open>(g, e) \<in> set (execAll at (n0 - 1) (Suc pos) cs)\<close>
        by auto
      then show ?thesis
      proof cases
        case 1
        then have \<open>0 < length (c # cs) \<and> at (drop 0 (c # cs)) = Some (g, n0) \<and> e = pos + 0 + n0\<close>
          using Some m by simp
        then show ?thesis by blast
      next
        case 2
        then show ?thesis by (rule later)
      qed
    qed
  qed
qed

lemma lastIndex_cases:
  \<open>foldl (\<lambda>_ (_, e). e) k ms = (if ms = [] then k else snd (last ms))\<close>
  by (induction ms rule: rev_induct) (simp_all add: case_prod_beta)


lemma packageAt_Nil: \<open>packageAt [] = None\<close>
  by (simp add: packageAt_def js_startsWith_def)

lemma packageAt_inside: \<open>packageAt (drop p s) = Some (g, n) \<Longrightarrow> p < length s\<close>
  by (rule ccontr) (simp add: packageAt_Nil)

lemma packageAt_length:
  assumes \<open>packageAt t = Some (g, n)\<close>
  shows \<open>n \<le> length t\<close> and \<open>0 < n\<close>
proof -
  note sh = packageAt_shape [OF assms]
  have t: \<open>t = (''<package>'' @ g @ ''</package>'') @ drop n t\<close> using sh by (metis append.assoc)
  have n: \<open>n = 19 + length g\<close> using sh by blast
  have \<open>length t = length (''<package>'' @ g @ ''</package>'') + length (drop n t)\<close>
    by (subst t) (simp only: length_append)
  then show \<open>n \<le> length t\<close> using n by simp
  show \<open>0 < n\<close> using n by simp
qed

lemma packageAt_extend:
  assumes \<open>packageAt (drop p s) = Some (g, n)\<close>
  shows \<open>packageAt (drop p (s @ extra)) = Some (g, n)\<close>
proof -
  have p: \<open>p < length s\<close> using assms by (rule packageAt_inside)
  have n: \<open>n \<le> length (drop p s)\<close> using assms by (rule packageAt_length)
  have \<open>take n (drop p (s @ extra)) = take n (drop p s)\<close> using p n by simp
  with assms show ?thesis by (rule packageAt_prefix)
qed

lemma packageAt_restrict:
  assumes \<open>packageAt (drop p (s @ extra)) = Some (g, n)\<close> and \<open>p + n \<le> length s\<close>
  shows \<open>packageAt (drop p s) = Some (g, n)\<close>
proof -
  have \<open>take n (drop p s) = take n (drop p (s @ extra))\<close> using assms(2) by simp
  with assms(1) show ?thesis by (rule packageAt_prefix)
qed

lemma packageAt_disjoint:
  assumes \<open>packageAt (drop q s) = Some (g, n)\<close> and \<open>packageAt (drop q' s) = Some (g', n')\<close>
    and \<open>q < q'\<close>
  shows \<open>q + n \<le> q'\<close>
proof (rule ccontr)
  assume \<open>\<not> q + n \<le> q'\<close>
  then have \<open>0 < q' - q\<close> \<open>q' - q < n\<close> using assms(3) by simp_all
  then have \<open>packageAt (drop (q' - q) (drop q s)) = None\<close>
    using assms(1) by (intro packageAt_no_overlap)
  moreover have \<open>drop (q' - q) (drop q s) = drop q' s\<close> using assms(3) by simp
  ultimately show False using assms(2) by simp
qed

text \<open>The collected list only grows, and every step collects what it reads.\<close>

lemma addPackage_packages:
  \<open>set (packagesToInstall (addPackage msg name st)) = insert name (set (packagesToInstall st))\<close>
  by (auto simp add: addPackage_def)

lemma foldl_packages_mono:
  assumes \<open>\<And>s x. set (packagesToInstall s) \<subseteq> set (packagesToInstall (f s x))\<close>
  shows \<open>set (packagesToInstall st) \<subseteq> set (packagesToInstall (foldl f st xs))\<close>
proof (induction xs arbitrary: st)
  case Nil
  show ?case by simp
next
  case (Cons x xs)
  have \<open>set (packagesToInstall st) \<subseteq> set (packagesToInstall (f st x))\<close> by (rule assms)
  also have \<open>\<dots> \<subseteq> set (packagesToInstall (foldl f (f st x) xs))\<close> by (rule Cons.IH)
  finally show ?case by simp
qed

lemma foldl_packages_collects:
  assumes mono: \<open>\<And>s y. set (packagesToInstall s) \<subseteq> set (packagesToInstall (f s y))\<close>
    and here: \<open>\<And>s. name \<in> set (packagesToInstall (f s x))\<close>
    and x: \<open>x \<in> set xs\<close>
  shows \<open>name \<in> set (packagesToInstall (foldl f st xs))\<close>
  using x
proof (induction xs arbitrary: st)
  case Nil
  then show ?case by simp
next
  case (Cons a xs)
  show ?case
  proof (cases \<open>x \<in> set xs\<close>)
    case True
    then show ?thesis using Cons.IH by simp
  next
    case False
    then have \<open>a = x\<close> using Cons.prems by simp
    then have \<open>name \<in> set (packagesToInstall (f st a))\<close> using here by simp
    then show ?thesis using foldl_packages_mono [of f \<open>f st a\<close> xs, OF mono] by auto
  qed
qed

lemma addPackages_mono:
  \<open>set (packagesToInstall st) \<subseteq> set (packagesToInstall (foldl (\<lambda>s n. addPackage msg n s) st names))\<close>
  by (rule foldl_packages_mono) (auto simp add: addPackage_packages)

lemma addPackages_collects:
  \<open>name \<in> set names \<Longrightarrow> name \<in> set (packagesToInstall (foldl (\<lambda>s n. addPackage msg n s) st names))\<close>
  by (rule foldl_packages_collects [where x = name]) (auto simp add: addPackage_packages)

lemma scanPackageTags_mono:
  \<open>set (packagesToInstall st) \<subseteq> set (packagesToInstall (fst (scanPackageTags searchText st)))\<close>
  unfolding scanPackageTags_def Let_def fst_conv
  by (rule foldl_packages_mono) (auto simp add: addPackage_packages case_prod_beta)

lemma scanPackageTags_collects:
  assumes \<open>(g, e) \<in> set (execAll packageAt 0 0 searchText)\<close> and \<open>js_trim g \<noteq> []\<close>
  shows \<open>js_trim g \<in> set (packagesToInstall (fst (scanPackageTags searchText st)))\<close>
  unfolding scanPackageTags_def Let_def fst_conv
  by (rule foldl_packages_collects [where x = \<open>(g, e)\<close>])
    (use assms in \<open>auto simp add: addPackage_packages case_prod_beta\<close>)

lemma scanPackageTags_lastIndex:
  \<open>snd (scanPackageTags searchText st) =
     (if execAll packageAt 0 0 searchText = [] then 0
      else snd (last (execAll packageAt 0 0 searchText)))\<close>
  by (simp add: scanPackageTags_def Let_def lastIndex_cases)

lemma ingest_edit_tagBuffer:
  \<open>tagBuffer (ingest True text st) =
     drop (snd (scanPackageTags (tagBuffer st @ text)
                  (sendProgress (Stream text)
                     (trackTags text (st\<lparr>generatedCode := generatedCode st @ text,
                                             currentFile := currentFile st @ text\<rparr>)))) - 50)
       (tagBuffer st @ text)\<close>
  by (simp add: ingest_def Let_def case_prod_beta)

lemma ingest_edit_packages:
  \<open>packagesToInstall (ingest True text st) =
     packagesToInstall (fst (scanPackageTags (tagBuffer st @ text)
                  (sendProgress (Stream text)
                     (trackTags text (st\<lparr>generatedCode := generatedCode st @ text,
                                             currentFile := currentFile st @ text\<rparr>)))))\<close>
  by (simp add: ingest_def Let_def case_prod_beta)

lemma ingest_packages_mono:
  \<open>set (packagesToInstall st) \<subseteq> set (packagesToInstall (ingest isEdit text st))\<close>
proof (cases isEdit)
  case True
  then have e: \<open>isEdit = True\<close> by simp
  show ?thesis unfolding e ingest_edit_packages
    using scanPackageTags_mono [of \<open>sendProgress (Stream text)
                     (trackTags text (st\<lparr>generatedCode := generatedCode st @ text,
                                             currentFile := currentFile st @ text\<rparr>))\<close>
                  \<open>tagBuffer st @ text\<close>] by simp
next
  case False
  then show ?thesis by (simp add: ingest_def Let_def)
qed


text \<open>The look-back buffer never cuts a package tag that a later chunk could complete: the
  text dropped from it ends at most \<open>50\<close> characters before the end of the last match, and
  a tag starting there would overlap that match.\<close>

lemma tagsCollected_initial: \<open>tagsCollected initial\<close>
  unfolding tagsCollected_def
  by (rule exI [of _ \<open>[]\<close>]) (simp add: initial_def packageAt_Nil)

lemma tagsCollected_ingest:
  assumes \<open>tagsCollected st\<close>
  shows \<open>tagsCollected (ingest True text st)\<close>
proof -
  let ?T = \<open>generatedCode st\<close>
  let ?S = \<open>tagBuffer st @ text\<close>
  let ?st2 = \<open>sendProgress (Stream text)
                (trackTags text (st\<lparr>generatedCode := generatedCode st @ text,
                                        currentFile := currentFile st @ text\<rparr>))\<close>
  let ?ms = \<open>execAll packageAt 0 0 ?S\<close>
  let ?l = \<open>snd (scanPackageTags ?S ?st2)\<close>
  let ?st' = \<open>ingest True text st\<close>
  from assms obtain d where d: \<open>?T = d @ tagBuffer st\<close>
    and col: \<open>\<And>p g n. packageAt (drop p ?T) = Some (g, n) \<Longrightarrow> js_trim g \<noteq> [] \<Longrightarrow>
                js_trim g \<in> set (packagesToInstall st)\<close>
    and fin: \<open>\<And>p g n extra. p < length d \<Longrightarrow> packageAt (drop p (?T @ extra)) = Some (g, n) \<Longrightarrow>
                p + n \<le> length ?T\<close>
    unfolding tagsCollected_def by blast
  have T': \<open>generatedCode ?st' = d @ ?S\<close> using d by simp
  have lenT': \<open>length (generatedCode ?st') = length d + length ?S\<close> unfolding T' by simp
  have B': \<open>tagBuffer ?st' = drop (?l - 50) ?S\<close> by (rule ingest_edit_tagBuffer)
  have pk': \<open>packagesToInstall ?st' = packagesToInstall (fst (scanPackageTags ?S ?st2))\<close>
    by (rule ingest_edit_packages)
  have old: \<open>set (packagesToInstall st) \<subseteq> set (packagesToInstall ?st')\<close>
    by (rule ingest_packages_mono)
  have split: \<open>generatedCode ?st' = (d @ take (?l - 50) ?S) @ tagBuffer ?st'\<close>
    unfolding T' B' by (simp only: append_assoc append_take_drop_id)
  have collected: \<open>js_trim g \<in> set (packagesToInstall ?st')\<close>
    if m: \<open>packageAt (drop p (generatedCode ?st')) = Some (g, n)\<close> and t: \<open>js_trim g \<noteq> []\<close> for p g n
  proof (cases \<open>p < length d\<close>)
    case True
    have m': \<open>packageAt (drop p (?T @ text)) = Some (g, n)\<close> using m by simp
    have \<open>p + n \<le> length ?T\<close> using True m' by (rule fin)
    with m' have \<open>packageAt (drop p ?T) = Some (g, n)\<close> by (rule packageAt_restrict)
    then have \<open>js_trim g \<in> set (packagesToInstall st)\<close> using t by (rule col)
    then show ?thesis using old by blast
  next
    case False
    then have \<open>drop p (generatedCode ?st') = drop (p - length d) ?S\<close> unfolding T' by simp
    then have m': \<open>packageAt (drop (p - length d) ?S) = Some (g, n)\<close> using m by simp
    then have inside: \<open>p - length d < length ?S\<close> by (rule packageAt_inside)
    have \<open>(g, 0 + (p - length d) + n) \<in> set ?ms\<close>
    proof (rule execAll_complete [where at = packageAt])
      show \<open>packageAt (drop j t) = None\<close> if \<open>packageAt t = Some (g, n)\<close> \<open>0 < j\<close> \<open>j < n\<close> for t g n j
        using that by (rule packageAt_no_overlap)
      show \<open>packageAt (drop j ?S) = None\<close> if \<open>j < 0\<close> for j using that by simp
      show \<open>packageAt (drop (p - length d) ?S) = Some (g, n)\<close> by (rule m')
      show \<open>p - length d < length ?S\<close> by (rule inside)
    qed
    then show ?thesis unfolding pk' using t by (rule scanPackageTags_collects)
  qed
  have finished: \<open>p + n \<le> length (generatedCode ?st')\<close>
    if p: \<open>p < length (d @ take (?l - 50) ?S)\<close>
      and m: \<open>packageAt (drop p (generatedCode ?st' @ extra)) = Some (g, n)\<close> for p g n extra
  proof (cases \<open>p < length d\<close>)
    case True
    have \<open>packageAt (drop p (?T @ (text @ extra))) = Some (g, n)\<close> using m by simp
    with True have \<open>p + n \<le> length ?T\<close> by (rule fin)
    then show ?thesis by simp
  next
    case False
    define q where \<open>q = p - length d\<close>
    have pq: \<open>p = length d + q\<close> using False by (simp add: q_def)
    have q: \<open>q < ?l - 50\<close> using p False by (simp add: q_def)
    have mq: \<open>packageAt (drop q (?S @ extra)) = Some (g, n)\<close>
      using m unfolding T' pq by simp
    have ne: \<open>?ms \<noteq> []\<close>
    proof
      assume \<open>?ms = []\<close>
      then have \<open>?l = 0\<close> by (simp add: scanPackageTags_lastIndex)
      then show False using q by simp
    qed
    then have l: \<open>?l = snd (last ?ms)\<close> by (simp add: scanPackageTags_lastIndex)
    have \<open>last ?ms \<in> set ?ms\<close> using ne by (rule last_in_set)
    then have \<open>(fst (last ?ms), ?l) \<in> set ?ms\<close> unfolding l by simp
    then obtain q0 n0 where q0: \<open>q0 < length ?S\<close>
      and m0: \<open>packageAt (drop q0 ?S) = Some (fst (last ?ms), n0)\<close> and l0: \<open>?l = 0 + q0 + n0\<close>
      using execAll_sound [of \<open>fst (last ?ms)\<close> ?l packageAt 0 0 ?S] by blast
    have n0: \<open>n0 \<le> length (drop q0 ?S)\<close> using m0 by (rule packageAt_length)
    have m0': \<open>packageAt (drop q0 (?S @ extra)) = Some (fst (last ?ms), n0)\<close>
      using m0 by (rule packageAt_extend)
    have \<open>q + n \<le> length ?S\<close>
    proof (cases q q0 rule: linorder_cases)
      case less
      with mq m0' have \<open>q + n \<le> q0\<close> by (rule packageAt_disjoint)
      then show ?thesis using q0 by simp
    next
      case equal
      then have \<open>n = n0\<close> using mq m0' by simp
      then show ?thesis using equal n0 q0 by simp
    next
      case greater
      with m0' mq have \<open>q0 + n0 \<le> q\<close> by (rule packageAt_disjoint)
      then show ?thesis using q l0 by simp
    qed
    then show ?thesis unfolding lenT' pq by simp
  qed
  show ?thesis
    unfolding tagsCollected_def
  proof (intro exI [of _ \<open>d @ take (?l - 50) ?S\<close>] conjI allI impI)
    show \<open>generatedCode ?st' = (d @ take (?l - 50) ?S) @ tagBuffer ?st'\<close> by (rule split)
  next
    fix p g n
    assume \<open>packageAt (drop p (generatedCode ?st')) = Some (g, n) \<and> js_trim g \<noteq> []\<close>
    then show \<open>js_trim g \<in> set (packagesToInstall ?st')\<close> using collected by blast
  next
    fix p g n extra
    assume \<open>p < length (d @ take (?l - 50) ?S) \<and>
            packageAt (drop p (generatedCode ?st' @ extra)) = Some (g, n)\<close>
    then show \<open>p + n \<le> length (generatedCode ?st')\<close> using finished by blast
  qed
qed

lemma tagsCollected_streamLoop:
  \<open>tagsCollected st \<Longrightarrow> tagsCollected (streamLoop True chunks st)\<close>
  by (induction chunks arbitrary: st) (simp_all add: tagsCollected_ingest)

lemma streamLoop_collects_tags:
  assumes \<open>packageAt (drop p (concat chunks)) = Some (g, n)\<close> and \<open>js_trim g \<noteq> []\<close>
  shows \<open>js_trim g \<in> set (packagesToInstall (streamLoop True chunks initial))\<close>
proof -
  have \<open>tagsCollected (streamLoop True chunks initial)\<close>
    by (rule tagsCollected_streamLoop) (rule tagsCollected_initial)
  moreover have \<open>generatedCode (streamLoop True chunks initial) = concat chunks\<close>
    by (simp add: initial_def)
  ultimately show ?thesis using assms unfolding tagsCollected_def by metis
qed


text \<open>After the stream: the packages blocks and the imports of the parsed files.\<close>

lemma streamLoop_packages_mono:
  \<open>set (packagesToInstall st) \<subseteq> set (packagesToInstall (streamLoop isEdit chunks st))\<close>
proof (induction chunks arbitrary: st)
  case Nil
  show ?case by simp
next
  case (Cons t chunks)
  have \<open>set (packagesToInstall st) \<subseteq> set (packagesToInstall (ingest isEdit t st))\<close>
    by (rule ingest_packages_mono)
  also have \<open>\<dots> \<subseteq> set (packagesToInstall (streamLoop isEdit chunks (ingest isEdit t st)))\<close>
    by (rule Cons.IH)
  finally show ?case by simp
qed

lemma packagesPass_mono:
  \<open>set (packagesToInstall st) \<subseteq> set (packagesToInstall (packagesPass isEdit st))\<close>
proof (cases isEdit)
  case True
  have \<open>set (packagesToInstall st) \<subseteq>
        set (packagesToInstall
          (foldl (\<lambda>s (body, _). foldl (\<lambda>s' pkg. addPackage ''Package detected: '' pkg s')
                                    s (packagesList body))
             st (execAll packagesAt 0 0 (generatedCode st))))\<close>
    by (rule foldl_packages_mono) (simp add: case_prod_beta addPackages_mono)
  then show ?thesis using True by (simp add: packagesPass_def)
next
  case False
  then show ?thesis by (simp add: packagesPass_def)
qed

lemma packagesPass_collects:
  assumes \<open>(body, e) \<in> set (execAll packagesAt 0 0 (generatedCode st))\<close>
    and \<open>piece \<in> set (splitSeps False (js_trim body))\<close> and \<open>js_trim piece \<noteq> []\<close>
  shows \<open>js_trim piece \<in> set (packagesToInstall (packagesPass True st))\<close>
proof -
  have listed: \<open>js_trim piece \<in> set (packagesList body)\<close>
    using assms(2,3) by (simp add: packagesList_def)
  have \<open>js_trim piece \<in>
        set (packagesToInstall
          (foldl (\<lambda>s (body, _). foldl (\<lambda>s' pkg. addPackage ''Package detected: '' pkg s')
                                    s (packagesList body))
             st (execAll packagesAt 0 0 (generatedCode st))))\<close>
  proof (rule foldl_packages_collects [where x = \<open>(body, e)\<close>])
    show \<open>set (packagesToInstall s) \<subseteq>
          set (packagesToInstall
            (case y of (body, _) \<Rightarrow>
               foldl (\<lambda>s' pkg. addPackage ''Package detected: '' pkg s') s
                 (packagesList body)))\<close> for s and y :: \<open>string \<times> nat\<close>
      by (simp add: case_prod_beta addPackages_mono)
    show \<open>js_trim piece \<in>
          set (packagesToInstall
            (case (body, e) of (body, _) \<Rightarrow>
               foldl (\<lambda>s' pkg. addPackage ''Package detected: '' pkg s') s
                 (packagesList body)))\<close> for s
      using listed by (simp add: addPackages_collects)
    show \<open>(body, e) \<in> set (execAll packagesAt 0 0 (generatedCode st))\<close> by (rule assms(1))
  qed
  then show ?thesis by (simp add: packagesPass_def)
qed

lemma collectImports:
  \<open>set (foldl (\<lambda>packages (importPath, _).
              case packageOfImport importPath of
                None \<Rightarrow> packages
              | Some pkg \<Rightarrow>
                  if pkg \<in> set packages then packages else packages @ [pkg])
       acc ms) =
   set acc \<union> {name. \<exists>importPath e. (importPath, e) \<in> set ms \<and> packageOfImport importPath = Some name}\<close>
proof (induction ms arbitrary: acc)
  case Nil
  show ?case by simp
next
  case (Cons m ms)
  obtain importPath e where m: \<open>m = (importPath, e)\<close> by (cases m)
  show ?case
    unfolding m foldl_Cons prod.case Cons.IH
    by (cases \<open>packageOfImport importPath\<close>) auto
qed

lemma extractPackagesFromCode_collects:
  assumes \<open>(importPath, e) \<in> set (execAll importAt 0 0 content)\<close>
    and \<open>packageOfImport importPath = Some name\<close>
  shows \<open>name \<in> set (extractPackagesFromCode content)\<close>
  unfolding extractPackagesFromCode_def collectImports using assms by blast

lemma fileProgress_packages:
  \<open>packagesToInstall (fileProgress isEdit f st) =
     packagesToInstall (if isEdit then
                   foldl (\<lambda>s pkg. addPackage ''Package detected from imports: '' pkg s) st
                     (extractPackagesFromCode (snd f))
                 else st)\<close>
  by (simp add: fileProgress_def Let_def)

lemma fileProgress_mono:
  \<open>set (packagesToInstall st) \<subseteq> set (packagesToInstall (fileProgress isEdit f st))\<close>
  unfolding fileProgress_packages by (simp add: addPackages_mono)

lemma filesPass_mono:
  \<open>set (packagesToInstall st) \<subseteq> set (packagesToInstall (filesPass isEdit st))\<close>
  unfolding filesPass_def by (rule foldl_packages_mono) (rule fileProgress_mono)

lemma filesPass_collects:
  assumes \<open>f \<in> set (parsedFiles (generatedCode st))\<close>
    and \<open>name \<in> set (extractPackagesFromCode (snd f))\<close>
  shows \<open>name \<in> set (packagesToInstall (filesPass True st))\<close>
  unfolding filesPass_def
proof (rule foldl_packages_collects [where x = f])
  show \<open>set (packagesToInstall s) \<subseteq> set (packagesToInstall (fileProgress True y s))\<close> for s y
    by (rule fileProgress_mono)
  show \<open>name \<in> set (packagesToInstall (fileProgress True f s))\<close> for s
    unfolding fileProgress_packages using assms(2) by (simp add: addPackages_collects)
  show \<open>f \<in> set (parsedFiles (generatedCode st))\<close> by (rule assms(1))
qed

lemma afterStream_packages:
  \<open>packagesToInstall (afterStream isEdit enable provider st) =
     packagesToInstall (filesPass isEdit (packagesPass isEdit (flushConversation st)))\<close>
  by (simp add: afterStream_def Let_def case_prod_beta)

lemma handleError_packages:
  \<open>packagesToInstall (handleError message st) = packagesToInstall st\<close>
  by (simp add: handleError_def)

lemma session_consistent:
  \<open>consistent (afterStream isEdit enable provider (streamLoop isEdit chunks initial))\<close>
  \<open>consistent (handleError message (streamLoop isEdit chunks initial))\<close>
proof -
  have loop: \<open>consistent (streamLoop isEdit chunks initial)\<close>
    by (rule consistent_streamLoop) (rule consistent_initial)
  then show \<open>consistent (afterStream isEdit enable provider (streamLoop isEdit chunks initial))\<close>
    by (rule consistent_afterStream)
  show \<open>consistent (handleError message (streamLoop isEdit chunks initial))\<close>
    using loop by (simp add: consistent_handleError)
qed

lemma announced_once:
  assumes \<open>consistent st\<close> and \<open>name \<in> set (packagesToInstall st)\<close>
  shows \<open>length (filter (\<lambda>x. x = name) (announced (sent st))) = 1\<close>
  using assms count_distinct [of \<open>packagesToInstall st\<close> name] by (simp add: consistent_def)

text \<open>
  Claim C9, as amended: in an edit session every dependency that is declared gets exactly one package
  event, however often and through whichever source it is declared: the trimmed name of a
  complete package tag of the streamed output (wherever the chunks cut it, and however
  the stream ends), and, when the stream ends normally, every non-blank entry of a
  complete packages block and every package named by an import of a closed file record.
  In every session, fresh or edit and however it ends, the names of the package events are
  pairwise different.
\<close>

theorem declared_dependency_announced_once:
  \<open>distinct (announced (runSession isEdit enable provider chunks ending)) \<and>
   (packageAt (drop p (concat chunks)) = Some (g, n) \<and> js_trim g \<noteq> [] \<longrightarrow>
      length (filter (\<lambda>x. x = js_trim g)
        (announced (runSession True enable provider chunks ending))) = 1) \<and>
   ((body, e) \<in> set (execAll packagesAt 0 0 (concat chunks)) \<and>
    piece \<in> set (splitSeps False (js_trim body)) \<and> js_trim piece \<noteq> [] \<longrightarrow>
      length (filter (\<lambda>x. x = js_trim piece)
        (announced (runSession True enable provider chunks Ended))) = 1) \<and>
   (f \<in> set (parsedFiles (concat chunks)) \<and>
    (importPath, e') \<in> set (execAll importAt 0 0 (snd f)) \<and> packageOfImport importPath = Some name \<longrightarrow>
      length (filter (\<lambda>x. x = name)
        (announced (runSession True enable provider chunks Ended))) = 1)\<close>
proof -
  let ?loop = \<open>streamLoop True chunks initial\<close>
  let ?st = \<open>packagesPass True (flushConversation ?loop)\<close>
  have code: \<open>generatedCode (flushConversation ?loop) = concat chunks\<close>
    \<open>generatedCode ?st = concat chunks\<close>
    by (simp_all add: initial_def)
  have fin: \<open>packagesToInstall (afterStream True enable provider ?loop) =
     packagesToInstall (filesPass True ?st)\<close>
    by (rule afterStream_packages)
  have ended: \<open>length (filter (\<lambda>x. x = a) (announced (runSession True enable provider chunks Ended))) = 1\<close>
    if \<open>a \<in> set (packagesToInstall (filesPass True ?st))\<close> for a
    unfolding runSession_def stream_end.case
    by (rule announced_once) (simp_all add: session_consistent fin that)
  have 1: \<open>distinct (announced (runSession isEdit enable provider chunks ending))\<close>
    using session_consistent(1) [of isEdit enable provider chunks]
      session_consistent(2) [of _ isEdit chunks]
    by (cases ending) (simp_all add: runSession_def consistent_def)
  have 2: \<open>length (filter (\<lambda>x. x = js_trim g)
        (announced (runSession True enable provider chunks ending))) = 1\<close>
    if a: \<open>packageAt (drop p (concat chunks)) = Some (g, n) \<and> js_trim g \<noteq> []\<close>
  proof (cases ending)
    case Ended
    have \<open>js_trim g \<in> set (packagesToInstall ?loop)\<close>
      using a streamLoop_collects_tags by blast
    then have \<open>js_trim g \<in> set (packagesToInstall (filesPass True ?st))\<close>
      using packagesPass_mono [of \<open>flushConversation ?loop\<close> True] filesPass_mono [of ?st True]
      by auto
    then show ?thesis unfolding Ended by (rule ended)
  next
    case (Threw message)
    have \<open>js_trim g \<in> set (packagesToInstall ?loop)\<close>
      using a streamLoop_collects_tags by blast
    then show ?thesis
      unfolding Threw runSession_def stream_end.case
      by (intro announced_once) (simp_all add: session_consistent handleError_packages)
  qed
  have 3: \<open>length (filter (\<lambda>x. x = js_trim piece)
        (announced (runSession True enable provider chunks Ended))) = 1\<close>
    if a: \<open>(body, e) \<in> set (execAll packagesAt 0 0 (concat chunks)) \<and>
      piece \<in> set (splitSeps False (js_trim body)) \<and> js_trim piece \<noteq> []\<close>
  proof -
    have \<open>js_trim piece \<in> set (packagesToInstall ?st)\<close>
      using a packagesPass_collects [of body e \<open>flushConversation ?loop\<close> piece] code by simp
    then have \<open>js_trim piece \<in> set (packagesToInstall (filesPass True ?st))\<close>
      using filesPass_mono [of ?st True] by auto
    then show ?thesis by (rule ended)
  qed
  have 4: \<open>length (filter (\<lambda>x. x = name)
        (announced (runSession True enable provider chunks Ended))) = 1\<close>
    if a: \<open>f \<in> set (parsedFiles (concat chunks)) \<and>
      (importPath, e') \<in> set (execAll importAt 0 0 (snd f)) \<and> packageOfImport importPath = Some name\<close>
  proof -
    have \<open>name \<in> set (extractPackagesFromCode (snd f))\<close>
      using a extractPackagesFromCode_collects by blast
    then have \<open>name \<in> set (packagesToInstall (filesPass True ?st))\<close>
      using a filesPass_collects [of f ?st name] code by simp
    then show ?thesis by (rule ended)
  qed
  show ?thesis using 1 2 3 4 by blast
qed

text \<open>An edit session that declares \<^verbatim>\<open>axios\<close> by a package tag cut by a chunk boundary, by an
  import and in a packages block, \<^verbatim>\<open>lodash\<close> in the packages block only and \<^verbatim>\<open>zod\<close> by an
  import only: one event for each.\<close>

theorem declared_by_each_source_announced_once:
  \<open>packageAt (drop 0 (concat [''<package>axios</pack'',
       ''age><file path="src/App.jsx">import axios from "axios"</file>'',
       ''<file path="src/api.js">import zod from "zod"</file><packages>lodash, axios</packages>'']))
     = Some (''axios'', 24) \<and>
   js_trim ''axios'' = ''axios'' \<and>
   (''lodash, axios'', 167) \<in> set (execAll packagesAt 0 0 (concat [''<package>axios</pack'',
       ''age><file path="src/App.jsx">import axios from "axios"</file>'',
       ''<file path="src/api.js">import zod from "zod"</file><packages>lodash, axios</packages>''])) \<and>
   ''lodash'' \<in> set (splitSeps False (js_trim ''lodash, axios'')) \<and>
   js_trim ''lodash'' = ''lodash'' \<and>
   (''src/api.js'', ''import zod from "zod"'') \<in> set (parsedFiles (concat [''<package>axios</pack'',
       ''age><file path="src/App.jsx">import axios from "axios"</file>'',
       ''<file path="src/api.js">import zod from "zod"</file><packages>lodash, axios</packages>''])) \<and>
   (''zod'', 21) \<in> set (execAll importAt 0 0 ''import zod from "zod"'') \<and>
   packageOfImport ''zod'' = Some ''zod'' \<and>
   length (filter (\<lambda>x. x = ''axios'') (announced (runSession True False (\<lambda>k f. None)
      [''<package>axios</pack'',
       ''age><file path="src/App.jsx">import axios from "axios"</file>'',
       ''<file path="src/api.js">import zod from "zod"</file><packages>lodash, axios</packages>'']
      Ended))) = 1 \<and>
   length (filter (\<lambda>x. x = ''lodash'') (announced (runSession True False (\<lambda>k f. None)
      [''<package>axios</pack'',
       ''age><file path="src/App.jsx">import axios from "axios"</file>'',
       ''<file path="src/api.js">import zod from "zod"</file><packages>lodash, axios</packages>'']
      Ended))) = 1 \<and>
   length (filter (\<lambda>x. x = ''zod'') (announced (runSession True False (\<lambda>k f. None)
      [''<package>axios</pack'',
       ''age><file path="src/App.jsx">import axios from "axios"</file>'',
       ''<file path="src/api.js">import zod from "zod"</file><packages>lodash, axios</packages>'']
      Ended))) = 1\<close>
proof -
  let ?chunks = \<open>[''<package>axios</pack'',
       ''age><file path="src/App.jsx">import axios from "axios"</file>'',
       ''<file path="src/api.js">import zod from "zod"</file><packages>lodash, axios</packages>'']\<close>
  let ?count = \<open>\<lambda>name. length (filter (\<lambda>x. x = name)
      (announced (runSession True False (\<lambda>k f. None) ?chunks Ended)))\<close>
  have tag: \<open>packageAt (drop 0 (concat ?chunks)) = Some (''axios'', 24)\<close> by code_simp
  have axios: \<open>js_trim ''axios'' = ''axios''\<close> by code_simp
  have block: \<open>(''lodash, axios'', 167) \<in> set (execAll packagesAt 0 0 (concat ?chunks))\<close>
    by code_simp
  have piece: \<open>''lodash'' \<in> set (splitSeps False (js_trim ''lodash, axios''))\<close> by code_simp
  have lodash: \<open>js_trim ''lodash'' = ''lodash''\<close> by code_simp
  have parsed: \<open>(''src/api.js'', ''import zod from "zod"'') \<in> set (parsedFiles (concat ?chunks))\<close>
    by code_simp
  have imported: \<open>(''zod'', 21) \<in> set (execAll importAt 0 0 (snd (''src/api.js'', ''import zod from "zod"'')))\<close>
    by code_simp
  have zod: \<open>packageOfImport ''zod'' = Some ''zod''\<close> by code_simp
  note once = declared_dependency_announced_once [of True False \<open>\<lambda>k f. None\<close> ?chunks Ended
      0 \<open>''axios''\<close> 24 \<open>''lodash, axios''\<close> 167 \<open>''lodash''\<close>
      \<open>(''src/api.js'', ''import zod from "zod"'')\<close> \<open>''zod''\<close> 21 \<open>''zod''\<close>]
  have 1: \<open>?count ''axios'' = 1\<close> using once tag axios by simp
  have 2: \<open>?count ''lodash'' = 1\<close> using once block piece lodash by simp
  have 3: \<open>?count ''zod'' = 1\<close> using once parsed imported zod by simp
  have imported': \<open>(''zod'', 21) \<in> set (execAll importAt 0 0 ''import zod from "zod"'')\<close>
    using imported by simp
  show ?thesis using tag axios block piece lodash parsed imported' zod 1 2 3 by (intro conjI)
qed

text \<open>Claim C9 as stated gives every declared name exactly one package event. Declared
  names that get none: in a fresh-generation session; in an edit session, a name imported
  by a file record that is never closed; in an edit session whose stream throws, a name
  of a packages block or of an import.\<close>

theorem declared_dependency_not_announced:
  \<open>length (filter (\<lambda>x. x = ''axios'') (announced (runSession False False (\<lambda>k f. None)
      [''<package>axios</pack'',
       ''age><file path="src/App.jsx">import axios from "axios"</file>'',
       ''<packages>lodash, axios</packages>''] Ended))) = 0 \<and>
   length (filter (\<lambda>x. x = ''axios'') (announced (runSession True False (\<lambda>k f. None)
      [''<file path="src/App.jsx">import axios from "axios"''] Ended))) = 0 \<and>
   length (filter (\<lambda>x. x = ''axios'') (announced (runSession True False (\<lambda>k f. None)
      [''<packages>axios</packages><file path="src/App.jsx">import axios from "axios"</file>'']
      (Threw ''stream failed'')))) = 0\<close>
  by (intro conjI; code_simp)

section \<open>A repair call that fails\<close>

lemma repairFiles_generatedCode_cong:
  \<open>generatedCode st = generatedCode st' \<Longrightarrow>
   generatedCode (repairFiles provider k files st) = generatedCode (repairFiles provider k files st')\<close>
proof (induction files arbitrary: k st st')
  case Nil
  then show ?case by simp
next
  case (Cons f files)
  show ?case
    unfolding repairFiles.simps Let_def
    by (rule Cons.IH) (simp add: Cons.prems split: option.splits)
qed

lemma repairFiles_mono: \<open>set (sent st) \<subseteq> set (sent (repairFiles provider k files st))\<close>
proof (induction files arbitrary: k st)
  case Nil
  then show ?case by simp
next
  case (Cons f files)
  let ?st1 = \<open>sendProgress (completing f) st\<close>
  let ?st2 = \<open>case followUp provider k f of
      Some completedContent \<Rightarrow>
        ?st1\<lparr>generatedCode := replaceFile f (cleanContent completedContent) (generatedCode ?st1)\<rparr>
    | None \<Rightarrow> sendProgress (couldNotComplete f) ?st1\<close>
  have \<open>set (sent st) \<subseteq> set (sent ?st2)\<close> by (cases \<open>followUp provider k f\<close>) auto
  also have \<open>\<dots> \<subseteq> set (sent (repairFiles provider (Suc k) files ?st2))\<close> by (rule Cons.IH)
  finally show ?case by (simp only: repairFiles.simps Let_def)
qed

lemma repairFiles_warns:
  assumes \<open>\<And>k. followUp provider k filePath = None\<close>
  shows \<open>filePath \<in> set files \<Longrightarrow> couldNotComplete filePath \<in> set (sent (repairFiles provider k files st))\<close>
proof (induction files arbitrary: k st)
  case Nil
  then show ?case by simp
next
  case (Cons f files)
  show ?case
  proof (cases \<open>f = filePath\<close>)
    case True
    let ?st2 = \<open>sendProgress (couldNotComplete filePath) (sendProgress (completing filePath) st)\<close>
    have \<open>couldNotComplete filePath \<in> set (sent ?st2)\<close> by simp
    then have \<open>couldNotComplete filePath \<in> set (sent (repairFiles provider (Suc k) files ?st2))\<close>
      using repairFiles_mono by blast
    then show ?thesis using True assms by (simp add: Let_def)
  next
    case False
    with Cons.prems have \<open>filePath \<in> set files\<close> by simp
    then show ?thesis by (simp add: Let_def Cons.IH)
  qed
qed

lemma repairFiles_all_fail:
  \<open>generatedCode (repairFiles (\<lambda>k f. None) k files st) = generatedCode st\<close>
  by (induction files arbitrary: k st) (simp_all add: Let_def followUp_def)

lemma recover_all_fail:
  \<open>generatedCode (fst (recover enable (\<lambda>k f. None) warnings st)) = generatedCode st\<close>
  by (simp add: recover_def Let_def repairFiles_all_fail)

lemma afterStream_sent_code:
  \<open>\<exists>files components packages warnings.
     sent (afterStream isEdit enable provider st) =
       sent (fst (recover enable provider (truncationWarnings (generatedCode st))
                    (filesPass isEdit (packagesPass isEdit (flushConversation st))))) @
       [Complete
          (generatedCode (fst (recover enable provider (truncationWarnings (generatedCode st))
                    (filesPass isEdit (packagesPass isEdit (flushConversation st))))))
          (explanationOf (generatedCode st)) files components packages warnings]\<close>
  by (simp add: afterStream_def Let_def case_prod_beta)


lemma js_includes_middle: \<open>js_includes (a @ p @ b) p\<close>
proof (induction a)
  case Nil
  have sw: \<open>js_startsWith (p @ b) p\<close> by (simp add: js_startsWith_def)
  have \<open>splitFirst p (p @ b) \<noteq> None\<close>
  proof (cases \<open>p @ b\<close>)
    case Nil
    then show ?thesis by simp
  next
    case (Cons c cs)
    then have \<open>js_startsWith (c # cs) p\<close> using sw by simp
    then have \<open>splitFirst p (c # cs) \<noteq> None\<close> by simp
    then show ?thesis using Cons by simp
  qed
  then show ?case by (simp add: js_includes_def)
next
  case (Cons c a)
  then have \<open>splitFirst p (a @ p @ b) \<noteq> None\<close> by (simp add: js_includes_def)
  then have \<open>splitFirst p (c # a @ p @ b) \<noteq> None\<close> by (auto split: option.splits)
  then show ?case by (simp add: js_includes_def)
qed

text \<open>
  Claim C7: if the follow-up generation call for a faulted record fails, the record is
  left as it is in the output, a warning naming the file is sent, and the session is not
  aborted but goes on to its complete event. Here the session has detected faults and has
  selected \<open>filePath\<close> for repair, and every follow-up call for it fails. Then (1) the
  failing step of the loop leaves \<^verbatim>\<open>generatedCode\<close> alone: the output is the one the
  remaining files produce from the unchanged text; (2) the session sends the warning
  \<^verbatim>\<open>Could not auto-complete <file>. Manual review may be needed.\<close> with the path
  of the file in the place of \<^verbatim>\<open><file>\<close>, so the message contains the path; (3)
  the session sends exactly one terminal event, a complete event; (4) when every call
  fails, the complete event carries the streamed text unchanged.
\<close>

theorem failed_repair_is_survived:
  assumes \<open>truncationWarnings (concat chunks) \<noteq> []\<close>
    and \<open>filePath \<in> set (truncatedFiles (concat chunks))\<close>
    and \<open>\<And>k. followUp provider k filePath = None\<close>
  shows \<open>generatedCode (repairFiles provider k (filePath # rest) st) =
           generatedCode (repairFiles provider (Suc k) rest st) \<and>
         Warning (''Could not auto-complete '' @ filePath @ ''. Manual review may be needed.'') None
           \<in> set (runSession isEdit True provider chunks Ended) \<and>
         js_includes (''Could not auto-complete '' @ filePath @ ''. Manual review may be needed.'') filePath \<and>
         (\<exists>code explanation files components packages warnings.
            filter is_terminal (runSession isEdit True provider chunks Ended) =
              [Complete code explanation files components packages warnings]) \<and>
         (\<exists>explanation files components packages warnings.
            filter is_terminal (runSession isEdit True (\<lambda>k f. None) chunks Ended) =
              [Complete (concat chunks) explanation files components packages warnings])\<close>
proof (intro conjI)
  show \<open>generatedCode (repairFiles provider k (filePath # rest) st) =
           generatedCode (repairFiles provider (Suc k) rest st)\<close>
    unfolding repairFiles.simps Let_def
    by (rule repairFiles_generatedCode_cong) (simp add: assms(3))
next
  let ?st0 = \<open>streamLoop isEdit chunks initial\<close>
  let ?st1 = \<open>filesPass isEdit (packagesPass isEdit (flushConversation ?st0))\<close>
  let ?w = \<open>Warning ''Detected incomplete code generation. Attempting to complete...''
               (Some (truncationWarnings (concat chunks)))\<close>
  have \<open>couldNotComplete filePath \<in>
          set (sent (repairFiles provider 0 (truncatedFiles (concat chunks)) (sendProgress ?w ?st1)))\<close>
    using assms(3) assms(2) by (rule repairFiles_warns)
  moreover have \<open>0 < length (truncatedFiles (concat chunks))\<close> using assms(2) by auto
  moreover have \<open>0 < length (truncationWarnings (concat chunks))\<close> using assms(1) by simp
  ultimately have \<open>couldNotComplete filePath \<in>
          set (sent (fst (recover True provider (truncationWarnings (concat chunks)) ?st1)))\<close>
    by (simp add: recover_def Let_def initial_def)
  moreover obtain files components packages warnings where
    \<open>sent (afterStream isEdit True provider ?st0) =
       sent (fst (recover True provider (truncationWarnings (generatedCode ?st0)) ?st1)) @
       [Complete (generatedCode (fst (recover True provider (truncationWarnings (generatedCode ?st0)) ?st1)))
          (explanationOf (generatedCode ?st0)) files components packages warnings]\<close>
    using afterStream_sent_code by blast
  ultimately have \<open>couldNotComplete filePath \<in> set (runSession isEdit True provider chunks Ended)\<close>
    by (simp add: runSession_def initial_def)
  then show \<open>Warning (''Could not auto-complete '' @ filePath @ ''. Manual review may be needed.'') None
           \<in> set (runSession isEdit True provider chunks Ended)\<close>
    by (simp only: couldNotComplete_def)
next
  show \<open>js_includes (''Could not auto-complete '' @ filePath @ ''. Manual review may be needed.'') filePath\<close>
    by (rule js_includes_middle)
next
  show \<open>\<exists>code explanation files components packages warnings.
            filter is_terminal (runSession isEdit True provider chunks Ended) =
              [Complete code explanation files components packages warnings]\<close>
  proof -
    have \<open>\<exists>code files components packages warnings.
       filter is_terminal (sent (afterStream isEdit True provider (streamLoop isEdit chunks initial))) =
         filter is_terminal (sent (streamLoop isEdit chunks initial)) @
         filter is_terminal [Complete code (explanationOf (generatedCode (streamLoop isEdit chunks initial)))
            files components packages warnings]\<close>
      by (rule afterStream_filter) simp_all
    then show ?thesis
      by (auto simp add: runSession_def streamLoop_sent [of is_terminal isEdit] initial_def)
  qed
next
  let ?st0 = \<open>streamLoop isEdit chunks initial\<close>
  let ?st1 = \<open>filesPass isEdit (packagesPass isEdit (flushConversation ?st0))\<close>
  let ?st2 = \<open>fst (recover True (\<lambda>k f. None) (truncationWarnings (generatedCode ?st0)) ?st1)\<close>
  obtain files components packages warnings where s:
    \<open>sent (afterStream isEdit True (\<lambda>k f. None) ?st0) =
       sent ?st2 @ [Complete (generatedCode ?st2) (explanationOf (generatedCode ?st0))
          files components packages warnings]\<close>
    using afterStream_sent_code by blast
  have \<open>generatedCode ?st2 = concat chunks\<close> by (simp add: recover_all_fail initial_def)
  moreover have \<open>filter is_terminal (sent ?st2) = []\<close>
    by (simp add: recover_sent filesPass_sent packagesPass_sent flushConversation_sent
        streamLoop_sent initial_def)
  ultimately have \<open>filter is_terminal (sent (afterStream isEdit True (\<lambda>k f. None) ?st0)) =
      [Complete (concat chunks) (explanationOf (generatedCode ?st0)) files components packages warnings]\<close>
    using s by simp
  then show \<open>\<exists>explanation files components packages warnings.
            filter is_terminal (runSession isEdit True (\<lambda>k f. None) chunks Ended) =
              [Complete (concat chunks) explanation files components packages warnings]\<close>
    by (auto simp add: runSession_def)
qed

text \<open>A session with one file of four unmatched braces. The follow-up call for it fails,
  and the warning with its path is on the channel.\<close>

theorem failed_repair_witness:
  \<open>truncationWarnings (concat [''<file path="a.jsx">{{{{</file>'']) \<noteq> [] \<and>
   ''a.jsx'' \<in> set (truncatedFiles (concat [''<file path="a.jsx">{{{{</file>''])) \<and>
   followUp (\<lambda>k f. None) 0 ''a.jsx'' = None \<and>
   Warning ''Could not auto-complete a.jsx. Manual review may be needed.'' None \<in>
     set (runSession False True (\<lambda>k f. None) [''<file path="a.jsx">{{{{</file>''] Ended)\<close>
proof -
  have 1: \<open>truncationWarnings (concat [''<file path="a.jsx">{{{{</file>'']) \<noteq> []\<close> by code_simp
  have 2: \<open>''a.jsx'' \<in> set (truncatedFiles (concat [''<file path="a.jsx">{{{{</file>'']))\<close>
    by code_simp
  have 3: \<open>followUp (\<lambda>k f. None) k ''a.jsx'' = None\<close> for k by (simp add: followUp_def)
  have \<open>Warning (''Could not auto-complete '' @ ''a.jsx'' @ ''. Manual review may be needed.'') None \<in>
     set (runSession False True (\<lambda>k f. None) [''<file path="a.jsx">{{{{</file>''] Ended)\<close>
    using failed_repair_is_survived [of \<open>[''<file path="a.jsx">{{{{</file>'']\<close> \<open>''a.jsx''\<close>
        \<open>\<lambda>k f. None\<close>, OF 1 2 3]
    by blast
  then have \<open>Warning ''Could not auto-complete a.jsx. Manual review may be needed.'' None \<in>
     set (runSession False True (\<lambda>k f. None) [''<file path="a.jsx">{{{{</file>''] Ended)\<close>
    by (simp only: append_Cons append_Nil)
  then show ?thesis using 1 2 3 by blast
qed

section \<open>What a repair replaces\<close>

lemma splitFirst_Some: \<open>splitFirst p s = Some (b, a) \<Longrightarrow> s = b @ p @ a\<close>
proof (induction s arbitrary: b)
  case Nil
  then show ?case by (simp split: if_splits)
next
  case (Cons c cs)
  show ?case
  proof (cases \<open>js_startsWith (c # cs) p\<close>)
    case True
    with Cons.prems have \<open>b = []\<close> \<open>a = drop (length p) (c # cs)\<close> by simp_all
    moreover have \<open>take (length p) (c # cs) = p\<close> using True by (simp add: js_startsWith_def)
    ultimately show ?thesis by (metis append_Nil append_take_drop_id)
  next
    case False
    with Cons.prems obtain b' where \<open>splitFirst p cs = Some (b', a)\<close> \<open>b = c # b'\<close>
      by (auto split: option.splits)
    then show ?thesis using Cons.IH by simp
  qed
qed

lemma recordEnd_append: \<open>fst (recordEnd rest) @ snd (recordEnd rest) = rest\<close>
  by (auto simp add: recordEnd_def dest: splitFirst_Some split: option.splits)

lemma replaceAll_skip:
  \<open>replaceAll at r (length xs) pre (xs @ ys) = replaceAll at r 0 (pre @ xs) ys\<close>
proof (induction xs arbitrary: pre)
  case Nil
  then show ?case by simp
next
  case (Cons x xs)
  have \<open>replaceAll at r (length (x # xs)) pre ((x # xs) @ ys) = replaceAll at r (length xs) (pre @ [x]) (xs @ ys)\<close>
    by simp
  also have \<open>\<dots> = replaceAll at r 0 ((pre @ [x]) @ xs) ys\<close> by (rule Cons.IH)
  finally show ?case by simp
qed

lemma replaceAll_no_match:
  \<open>splitFirst m s = None \<Longrightarrow> (\<And>t. at t \<noteq> None \<Longrightarrow> js_startsWith t m) \<Longrightarrow>
   replaceAll at r 0 pre s = s\<close>
proof (induction s arbitrary: pre)
  case Nil
  then show ?case by simp
next
  case (Cons c cs)
  from Cons.prems(1) have ns: \<open>\<not> js_startsWith (c # cs) m\<close> by (auto split: if_splits)
  then have \<open>at (c # cs) = None\<close> using Cons.prems(2) by blast
  moreover have \<open>splitFirst m cs = None\<close> using Cons.prems(1) by (rule splitFirst_None_Cons)
  ultimately show ?case using Cons.IH Cons.prems(2) by simp
qed

lemma replaceAll_first:
  assumes \<open>splitFirst m s = Some (b, rest)\<close>
    and \<open>\<And>t. at t \<noteq> None \<Longrightarrow> js_startsWith t m\<close>
  shows \<open>replaceAll at r 0 pre s = b @ replaceAll at r 0 (pre @ b) (m @ rest)\<close>
  using assms(1)
proof (induction s arbitrary: pre b)
  case Nil
  then show ?case by (simp split: if_splits)
next
  case (Cons c cs)
  show ?case
  proof (cases \<open>js_startsWith (c # cs) m\<close>)
    case True
    with Cons.prems have \<open>b = []\<close> by simp
    moreover have \<open>c # cs = b @ m @ rest\<close> using Cons.prems by (rule splitFirst_Some)
    ultimately show ?thesis by simp
  next
    case False
    with Cons.prems obtain b' where b': \<open>splitFirst m cs = Some (b', rest)\<close> \<open>b = c # b'\<close>
      by (auto split: option.splits)
    have \<open>at (c # cs) = None\<close> using False assms(2) by blast
    then have \<open>replaceAll at r 0 pre (c # cs) = c # replaceAll at r 0 (pre @ [c]) cs\<close> by simp
    also have \<open>\<dots> = c # b' @ replaceAll at r 0 ((pre @ [c]) @ b') (m @ rest)\<close>
      using Cons.IH [OF b'(1)] by simp
    finally show ?thesis using b'(2) by simp
  qed
qed

lemma filePatternAt_starts: \<open>filePatternAt filePath t \<noteq> None \<Longrightarrow> js_startsWith t (openMarker filePath)\<close>
  by (simp add: filePatternAt_def split: if_splits)

lemma filePatternAt_here:
  \<open>filePatternAt filePath (openMarker filePath @ rest) =
     Some (length (openMarker filePath) + length (fst (recordEnd rest)))\<close>
  by (simp add: filePatternAt_def js_startsWith_def recordEnd_def split: option.splits)

lemma openMarker_nonempty: \<open>openMarker filePath = CHR ''<'' # tl (openMarker filePath)\<close>
  by (simp add: openMarker_def)

lemma expandReplacement_plain:
  \<open>CHR ''$'' \<notin> set r \<Longrightarrow> expandReplacement matched preceding following r = r\<close>
  by (induction matched preceding following r rule: expandReplacement.induct) auto


text \<open>
  The replacement of line 2044, where it runs: on an output in which the open marker of
  the path occurs once, it rewrites the span of that record and nothing else.
\<close>

lemma replaceFile_single_marker:
  assumes \<open>splitFirst (openMarker filePath) output = Some (pre, rest)\<close>
    and \<open>\<not> js_includes (snd (recordEnd rest)) (openMarker filePath)\<close>
  shows \<open>output = pre @ (openMarker filePath @ fst (recordEnd rest)) @ snd (recordEnd rest) \<and>
         replaceFile filePath content output =
           pre @ expandReplacement (openMarker filePath @ fst (recordEnd rest)) pre (snd (recordEnd rest))
                   (replacementFor filePath content) @ snd (recordEnd rest) \<and>
         (CHR ''$'' \<notin> set filePath \<union> set content \<longrightarrow>
            replaceFile filePath content output =
              pre @ replacementFor filePath content @ snd (recordEnd rest))\<close>
proof -
  let ?m = \<open>openMarker filePath\<close>
  let ?e = \<open>fst (recordEnd rest)\<close>
  let ?post = \<open>snd (recordEnd rest)\<close>
  let ?at = \<open>filePatternAt filePath\<close>
  let ?r = \<open>replacementFor filePath content\<close>
  have rest: \<open>rest = ?e @ ?post\<close> by (simp add: recordEnd_append)
  have out: \<open>output = pre @ ?m @ rest\<close> using assms(1) by (rule splitFirst_Some)
  have starts: \<open>\<And>t. ?at t \<noteq> None \<Longrightarrow> js_startsWith t ?m\<close> by (rule filePatternAt_starts)
  have nm: \<open>splitFirst ?m ?post = None\<close> using assms(2) unfolding js_includes_def by blast
  obtain ms where m: \<open>?m = CHR ''<'' # ms\<close> using openMarker_nonempty by blast
  have n: \<open>?at (CHR ''<'' # ms @ rest) = Some (Suc (length (ms @ ?e)))\<close>
    using filePatternAt_here [of filePath rest] m by simp
  have tk: \<open>take (Suc (length (ms @ ?e))) (CHR ''<'' # ms @ rest) = ?m @ ?e\<close>
    using m rest by (metis append.assoc append_Cons append_eq_conv_conj length_Cons)
  have dr: \<open>drop (Suc (length (ms @ ?e))) (CHR ''<'' # ms @ rest) = ?post\<close>
    using m rest by (metis append.assoc append_Cons append_eq_conv_conj length_Cons)
  have \<open>replaceAll ?at ?r (length (ms @ ?e)) (pre @ [CHR ''<'']) ((ms @ ?e) @ ?post) =
          replaceAll ?at ?r 0 ((pre @ [CHR ''<'']) @ ms @ ?e) ?post\<close>
    by (rule replaceAll_skip)
  also have \<open>\<dots> = ?post\<close>
    using nm starts by (rule replaceAll_no_match)
  finally have tail: \<open>replaceAll ?at ?r (length (ms @ ?e)) (pre @ [CHR ''<'']) (ms @ rest) = ?post\<close>
    using rest by (metis append.assoc)
  have \<open>replaceAll ?at ?r 0 pre (CHR ''<'' # ms @ rest) =
          expandReplacement (?m @ ?e) pre ?post ?r @ ?post\<close>
    using n tk dr tail by (simp del: take_Suc_Cons drop_Suc_Cons)
  then have here: \<open>replaceAll ?at ?r 0 pre (?m @ rest) = expandReplacement (?m @ ?e) pre ?post ?r @ ?post\<close>
    using m by simp
  have \<open>replaceFile filePath content output = pre @ replaceAll ?at ?r 0 ([] @ pre) (?m @ rest)\<close>
    unfolding replaceFile_def using assms(1) starts by (rule replaceAll_first)
  then have general: \<open>replaceFile filePath content output =
      pre @ expandReplacement (?m @ ?e) pre ?post ?r @ ?post\<close>
    using here by simp
  have plain: \<open>expandReplacement (?m @ ?e) pre ?post ?r = ?r\<close>
    if \<open>CHR ''$'' \<notin> set filePath \<union> set content\<close>
    using that by (intro expandReplacement_plain) (auto simp add: replacementFor_def openMarker_def)
  show ?thesis using out rest general plain by auto
qed

lemma followUp_fails: \<open>followUp provider k filePath = None\<close>
  by (simp add: followUp_def callReads_def declaredNames_def)

text \<open>
  Claim C4: the repair of a faulted record replaces the exact span of that record with a
  newly built open/payload/close triple and leaves the spans of all other extracted
  records unchanged byte for byte. The handler builds the replacement (lines
  2029--2047), but never reaches it: the call before it reads two names that are not
  declared, so every follow-up call throws and the loop takes the warning branch. The
  repair loop leaves \<^verbatim>\<open>generatedCode\<close> as it is, for every provider and every list of
  files, and the complete event of every session carries the streamed text: the faulted
  record is in it as it was streamed, and the extracted records of the final output are
  those of the stream.
\<close>

theorem repair_never_replaces_the_record:
  \<open>generatedCode (repairFiles provider k files st) = generatedCode st \<and>
   (\<exists>explanation count components packages warnings.
      filter is_terminal (runSession isEdit enable provider chunks Ended) =
        [Complete (concat chunks) explanation count components packages warnings])\<close>
proof
  show unchanged: \<open>generatedCode (repairFiles provider k files st) = generatedCode st\<close> for k files st
  proof (induction files arbitrary: k st)
    case Nil
    then show ?case by simp
  next
    case (Cons f files)
    have \<open>generatedCode (repairFiles provider k (f # files) st) =
        generatedCode (repairFiles provider (Suc k) files
          (sendProgress (couldNotComplete f) (sendProgress (completing f) st)))\<close>
      by (simp add: Let_def followUp_fails)
    also have \<open>\<dots> = generatedCode (sendProgress (couldNotComplete f) (sendProgress (completing f) st))\<close>
      by (rule Cons.IH)
    finally show ?case by simp
  qed
  let ?st0 = \<open>streamLoop isEdit chunks initial\<close>
  let ?st1 = \<open>filesPass isEdit (packagesPass isEdit (flushConversation ?st0))\<close>
  let ?st2 = \<open>fst (recover enable provider (truncationWarnings (generatedCode ?st0)) ?st1)\<close>
  obtain count components packages warnings where s:
    \<open>sent (afterStream isEdit enable provider ?st0) =
       sent ?st2 @ [Complete (generatedCode ?st2) (explanationOf (generatedCode ?st0))
          count components packages warnings]\<close>
    using afterStream_sent_code by blast
  have \<open>generatedCode ?st2 = generatedCode ?st1\<close>
    by (simp add: recover_def Let_def unchanged)
  then have \<open>generatedCode ?st2 = concat chunks\<close> by (simp add: initial_def)
  moreover have \<open>filter is_terminal (sent ?st2) = []\<close>
    by (simp add: recover_sent filesPass_sent packagesPass_sent flushConversation_sent
        streamLoop_sent initial_def)
  ultimately have \<open>filter is_terminal (sent (afterStream isEdit enable provider ?st0)) =
      [Complete (concat chunks) (explanationOf (generatedCode ?st0)) count components packages warnings]\<close>
    using s by simp
  then show \<open>\<exists>explanation count components packages warnings.
      filter is_terminal (runSession isEdit enable provider chunks Ended) =
        [Complete (concat chunks) explanation count components packages warnings]\<close>
    by (auto simp add: runSession_def)
qed

text \<open>
  The failing session: two records, the first with four unmatched braces, recovery
  enabled, and a provider that would answer. The follow-up call for \<^verbatim>\<open>a.jsx\<close> is
  announced and fails; the complete event carries the faulted record as it was streamed.
\<close>

theorem faulted_record_stays_in_the_output:
  \<open>runSession False True (\<lambda>k f. Some ''export default 0'')
     [''<file path="a.jsx">{{{{</file><file path="b.jsx">export default 1</file>''] Ended =
     [Stream ''<file path="a.jsx">{{{{</file><file path="b.jsx">export default 1</file>'',
      Warning ''Detected incomplete code generation. Attempting to complete...''
        (Some [''File a.jsx has severely unmatched braces (4 open, 0 closed)'']),
      Info ''Completing a.jsx...'',
      Warning ''Could not auto-complete a.jsx. Manual review may be needed.'' None,
      Info ''Truncation recovery complete'',
      Complete ''<file path="a.jsx">{{{{</file><file path="b.jsx">export default 1</file>''
        ''Code generated successfully!'' 2 0 None None]\<close>
proof -
  have \<open>\<exists>explanation count components packages warnings.
      filter is_terminal (runSession False True (\<lambda>k f. Some ''export default 0'')
        [''<file path="a.jsx">{{{{</file><file path="b.jsx">export default 1</file>''] Ended) =
        [Complete (concat [''<file path="a.jsx">{{{{</file><file path="b.jsx">export default 1</file>''])
           explanation count components packages warnings]\<close>
    using repair_never_replaces_the_record by blast
  moreover have \<open>runSession False True (\<lambda>k f. Some ''export default 0'')
     [''<file path="a.jsx">{{{{</file><file path="b.jsx">export default 1</file>''] Ended =
     [Stream ''<file path="a.jsx">{{{{</file><file path="b.jsx">export default 1</file>'',
      Warning ''Detected incomplete code generation. Attempting to complete...''
        (Some [''File a.jsx has severely unmatched braces (4 open, 0 closed)'']),
      Info ''Completing a.jsx...'',
      Warning ''Could not auto-complete a.jsx. Manual review may be needed.'' None,
      Info ''Truncation recovery complete'',
      Complete ''<file path="a.jsx">{{{{</file><file path="b.jsx">export default 1</file>''
        ''Code generated successfully!'' 2 0 None None]\<close>
    by code_simp
  ultimately show ?thesis by blast
qed

section \<open>Completion events\<close>

lemma addPackages_completions:
  \<open>filter is_completion (sent (foldl (\<lambda>s' n. addPackage m n s') st ns)) = filter is_completion (sent st)\<close>
  by (rule foldl_invariant) (simp_all add: addPackage_sent)

lemma fileProgress_completions:
  \<open>filter is_completion (sent (fileProgress isEdit f st)) =
     filter is_completion (sent st) @ map (progressEvent (componentCount st)) (filter progressPath [f])\<close>
  by (simp add: fileProgress_def Let_def progressPath_def progressEvent_def addPackages_completions)

lemma fileProgress_all_completions:
  \<open>filter is_completion (sent (foldl (\<lambda>s f. fileProgress isEdit f s) st fs)) =
     filter is_completion (sent st) @ map (progressEvent (componentCount st)) (filter progressPath fs)\<close>
proof (induction fs arbitrary: st)
  case Nil
  then show ?case by simp
next
  case (Cons f fs)
  have \<open>filter is_completion (sent (foldl (\<lambda>s f. fileProgress isEdit f s) st (f # fs))) =
      filter is_completion (sent (fileProgress isEdit f st)) @
      map (progressEvent (componentCount (fileProgress isEdit f st))) (filter progressPath fs)\<close>
    using Cons.IH [of \<open>fileProgress isEdit f st\<close>] by simp
  also have \<open>\<dots> = filter is_completion (sent st) @
      map (progressEvent (componentCount st)) (filter progressPath [f]) @
      map (progressEvent (componentCount st)) (filter progressPath fs)\<close>
    by (simp add: fileProgress_completions)
  finally show ?case by simp
qed

lemma filesPass_completions:
  \<open>filter is_completion (sent (filesPass isEdit st)) =
     filter is_completion (sent st) @
     map (progressEvent (componentCount st)) (filter progressPath (parsedFiles (generatedCode st)))\<close>
  by (simp add: filesPass_def fileProgress_all_completions)

lemma fileProgress_extends: \<open>\<exists>new. sent (fileProgress isEdit f st) = sent st @ new\<close>
proof -
  have \<open>\<exists>new. sent (foldl (\<lambda>s' n. addPackage m n s') s ns) = sent s @ new\<close> for m s ns
  proof (induction ns arbitrary: s)
    case Nil
    then show ?case by simp
  next
    case (Cons n ns)
    obtain new where \<open>sent (foldl (\<lambda>s' n. addPackage m n s') (addPackage m n s) ns) =
        sent (addPackage m n s) @ new\<close>
      using Cons.IH by blast
    then show ?case by (cases \<open>n \<in> set (packagesToInstall s)\<close>) (simp_all add: addPackage_def)
  qed
  then obtain new where
    \<open>sent (foldl (\<lambda>s pkg. addPackage ''Package detected from imports: '' pkg s) st
        (extractPackagesFromCode (snd f))) = sent st @ new\<close>
    by blast
  then show ?thesis by (simp add: fileProgress_def Let_def)
qed

lemma filesPass_extends: \<open>\<exists>new. sent (filesPass isEdit st) = sent st @ new\<close>
proof -
  have \<open>\<exists>new. sent (foldl (\<lambda>s f. fileProgress isEdit f s) st fs) = sent st @ new\<close> for fs
  proof (induction fs arbitrary: st)
    case Nil
    then show ?case by simp
  next
    case (Cons f fs)
    obtain new1 where 1: \<open>sent (fileProgress isEdit f st) = sent st @ new1\<close>
      using fileProgress_extends by blast
    obtain new2 where \<open>sent (foldl (\<lambda>s f. fileProgress isEdit f s) (fileProgress isEdit f st) fs) =
        sent (fileProgress isEdit f st) @ new2\<close>
      using Cons.IH by blast
    then show ?case using 1 by simp
  qed
  then show ?thesis by (simp add: filesPass_def)
qed

lemma filesPassEvents_completions:
  \<open>filter is_completion (filesPassEvents isEdit st) =
     map (progressEvent (componentCount st)) (filter progressPath (parsedFiles (generatedCode st)))\<close>
proof -
  obtain new where new: \<open>sent (filesPass isEdit st) = sent st @ new\<close>
    using filesPass_extends by blast
  then have \<open>filesPassEvents isEdit st = new\<close> by (simp add: filesPassEvents_def)
  moreover have \<open>filter is_completion (sent st) @ filter is_completion new =
      filter is_completion (sent st) @
      map (progressEvent (componentCount st)) (filter progressPath (parsedFiles (generatedCode st)))\<close>
    using filesPass_completions [of isEdit st] new by simp
  ultimately show ?thesis by simp
qed

lemma recordOf_progressEvent: \<open>recordOf (progressEvent count f) = recordOf (progressEvent count' f)\<close>
  by (simp add: progressEvent_def)

lemma trackFile_completions:
  \<open>length (filter is_completion (sent (trackFile text st))) \<le> Suc (length (filter is_completion (sent st)))\<close>
  by (simp add: trackFile_def Let_def split: option.splits)

lemma ingest_completions:
  \<open>length (filter is_completion (sent (ingest isEdit text st))) \<le> Suc (length (filter is_completion (sent st)))\<close>
proof -
  let ?st1 = \<open>st\<lparr>generatedCode := generatedCode st @ text, currentFile := currentFile st @ text\<rparr>\<close>
  let ?st2 = \<open>sendProgress (Stream text) (trackTags text ?st1)\<close>
  let ?p = \<open>if isEdit then scanPackageTags (tagBuffer ?st1 @ text) ?st2 else (?st2, 0)\<close>
  let ?st4 = \<open>(fst ?p)\<lparr>tagBuffer := drop (snd ?p - 50) (tagBuffer ?st1 @ text)\<rparr>\<close>
  have eq: \<open>ingest isEdit text st = trackFile text ?st4\<close>
    by (simp only: ingest_def Let_def case_prod_beta)
  have \<open>filter is_completion (sent (fst ?p)) = filter is_completion (sent st)\<close>
    by (simp add: scanPackageTags_sent trackTags_sent)
  then have \<open>filter is_completion (sent ?st4) = filter is_completion (sent st)\<close>
    by simp
  then show ?thesis
    unfolding eq using trackFile_completions [of \<open>text\<close> \<open>?st4\<close>] by (simp only:)
qed

lemma streamLoop_completions:
  \<open>length (filter is_completion (sent (streamLoop isEdit chunks st))) \<le>
     length chunks + length (filter is_completion (sent st))\<close>
proof (induction chunks arbitrary: st)
  case Nil
  then show ?case by simp
next
  case (Cons t chunks)
  have \<open>length (filter is_completion (sent (streamLoop isEdit (t # chunks) st))) \<le>
      length chunks + length (filter is_completion (sent (ingest isEdit t st)))\<close>
    using Cons.IH by simp
  also have \<open>\<dots> \<le> length chunks + Suc (length (filter is_completion (sent st)))\<close>
    using ingest_completions by simp
  finally show ?case by simp
qed


text \<open>
  Claim C1, as amended: two chunkings of the same total text give the same extracted
  (path, payload) pairs, the pairs of the whole text, and the post-stream file pass
  sends the same component and app events for both (by name and path): one for every
  extracted record whose path contains \<^verbatim>\<open>components/\<close> or \<^verbatim>\<open>App.jsx\<close>, none
  for the other records.
\<close>

theorem extraction_is_chunk_invariant:
  assumes \<open>concat chunks = concat chunks'\<close>
  shows \<open>parsedFiles (generatedCode (beforeFiles isEdit chunks)) = parsedFiles (concat chunks) \<and>
         parsedFiles (generatedCode (beforeFiles isEdit chunks)) =
           parsedFiles (generatedCode (beforeFiles isEdit chunks')) \<and>
         map recordOf (filter is_completion (filesPassEvents isEdit (beforeFiles isEdit chunks))) =
           map recordOf (filter is_completion (filesPassEvents isEdit (beforeFiles isEdit chunks'))) \<and>
         length (filter is_completion (filesPassEvents isEdit (beforeFiles isEdit chunks))) =
           length (filter progressPath (parsedFiles (concat chunks)))\<close>
proof -
  have code: \<open>generatedCode (beforeFiles isEdit cs) = concat cs\<close> for cs
    by (simp add: beforeFiles_def initial_def)
  have ev: \<open>map recordOf (filter is_completion (filesPassEvents isEdit (beforeFiles isEdit cs))) =
      map (\<lambda>f. recordOf (progressEvent 0 f)) (filter progressPath (parsedFiles (concat cs)))\<close> for cs
    unfolding filesPassEvents_completions code map_map comp_def
    by (rule map_cong) (rule refl, rule recordOf_progressEvent)
  have len: \<open>length (filter is_completion (filesPassEvents isEdit (beforeFiles isEdit chunks))) =
           length (filter progressPath (parsedFiles (concat chunks)))\<close>
    by (simp add: filesPassEvents_completions code)
  show ?thesis using assms code ev len by simp
qed

text \<open>The three chunks of the specification's scenario A against the same text in one
  chunk.\<close>

theorem extraction_is_chunk_invariant_witness:
  \<open>concat [''<file path="a.txt">hel'', ''lo</file><file path="b.txt">world</'', ''file>''] =
     concat [''<file path="a.txt">hello</file><file path="b.txt">world</file>''] \<and>
   parsedFiles (generatedCode (beforeFiles False
     [''<file path="a.txt">hel'', ''lo</file><file path="b.txt">world</'', ''file>''])) =
     [(''a.txt'', ''hello''), (''b.txt'', ''world'')]\<close>
proof -
  have 1: \<open>concat [''<file path="a.txt">hel'', ''lo</file><file path="b.txt">world</'', ''file>''] =
     concat [''<file path="a.txt">hello</file><file path="b.txt">world</file>'']\<close>
    by simp
  have 2: \<open>parsedFiles (generatedCode (beforeFiles False
      [''<file path="a.txt">hello</file><file path="b.txt">world</file>''])) =
     [(''a.txt'', ''hello''), (''b.txt'', ''world'')]\<close>
    by code_simp
  show ?thesis
    using 1 extraction_is_chunk_invariant [OF 1, of False] unfolding 2 by blast
qed

text \<open>
  Claim C1 as stated says every chunking gives exactly N completion events for N
  records. One component record sent as one chunk gives two (one from the streaming
  loop, one from the file pass); cut inside its open marker, it gives one.
\<close>

theorem completion_events_depend_on_chunking:
  \<open>parsedFiles ''<file path="src/components/Hero.jsx">export default 1</file>'' =
     [(''src/components/Hero.jsx'', ''export default 1'')] \<and>
   length (filter is_completion (runSession False False (\<lambda>k f. None)
     [''<file path="src/components/Hero.jsx">export default 1</file>''] Ended)) = 2 \<and>
   length (filter is_completion (runSession False False (\<lambda>k f. None)
     [''<file pa'', ''th="src/components/Hero.jsx">export default 1</file>''] Ended)) = 1\<close>
  by code_simp

text \<open>
  Claim C3, as amended: the post-stream pass sends one component or app event for every
  extracted record whose path contains \<^verbatim>\<open>components/\<close> or \<^verbatim>\<open>App.jsx\<close>,
  whether or not the streaming loop has sent one for it. The completion events of a
  session are those of the streaming loop, at most one per chunk, and one more per such
  record.
\<close>

theorem completion_events_of_a_session:
  \<open>length (filter is_completion (runSession isEdit enable provider chunks Ended)) =
     length (filter is_completion (sent (streamLoop isEdit chunks initial))) +
     length (filter progressPath (parsedFiles (concat chunks))) \<and>
   length (filter is_completion (sent (streamLoop isEdit chunks initial))) \<le> length chunks\<close>
proof
  let ?st0 = \<open>streamLoop isEdit chunks initial\<close>
  let ?st1 = \<open>filesPass isEdit (packagesPass isEdit (flushConversation ?st0))\<close>
  obtain files components packages warnings where s:
    \<open>sent (afterStream isEdit enable provider ?st0) =
       sent (fst (recover enable provider (truncationWarnings (generatedCode ?st0)) ?st1)) @
       [Complete (generatedCode (fst (recover enable provider (truncationWarnings (generatedCode ?st0)) ?st1)))
          (explanationOf (generatedCode ?st0)) files components packages warnings]\<close>
    using afterStream_sent_code by blast
  have \<open>filter is_completion (sent (afterStream isEdit enable provider ?st0)) =
      filter is_completion (sent ?st1)\<close>
    unfolding s by (simp add: recover_sent)
  also have \<open>\<dots> = filter is_completion (sent ?st0) @
      map (progressEvent (componentCount ?st0)) (filter progressPath (parsedFiles (concat chunks)))\<close>
    by (simp add: filesPass_completions packagesPass_sent flushConversation_sent initial_def)
  finally show \<open>length (filter is_completion (runSession isEdit enable provider chunks Ended)) =
     length (filter is_completion (sent (streamLoop isEdit chunks initial))) +
     length (filter progressPath (parsedFiles (concat chunks)))\<close>
    by (simp add: runSession_def)
next
  show \<open>length (filter is_completion (sent (streamLoop isEdit chunks initial))) \<le> length chunks\<close>
    using streamLoop_completions [of isEdit chunks initial] by (simp add: initial_def)
qed

text \<open>
  Claim C3 as stated says the post-stream pass adds no completion event and a record
  gets at most one. A component record that the streaming loop has already reported is
  reported again by the file pass.
\<close>

theorem record_completed_twice:
  \<open>filter is_completion (runSession False False (\<lambda>k f. None)
     [''<file path="src/components/Hero.jsx">export default 1</file>''] Ended) =
     [Component ''Hero'' ''src/components/Hero.jsx'' 1, Component ''Hero'' ''src/components/Hero.jsx'' 1]\<close>
  by code_simp

section \<open>A stream that ends inside a record\<close>

lemma recover_no_files:
  \<open>truncatedFiles (generatedCode st) = [] \<Longrightarrow> recover enable provider warnings st = recover enable provider' warnings st\<close>
  by (simp add: recover_def Let_def)

lemma runSession_no_files:
  assumes \<open>truncatedFiles (concat chunks) = []\<close>
  shows \<open>runSession isEdit enable provider chunks ending = runSession isEdit enable provider' chunks ending\<close>
proof -
  let ?st1 = \<open>filesPass isEdit (packagesPass isEdit (flushConversation (streamLoop isEdit chunks initial)))\<close>
  have \<open>truncatedFiles (generatedCode ?st1) = []\<close> using assms by (simp add: initial_def)
  then have \<open>recover enable provider ws ?st1 = recover enable provider' ws ?st1\<close> for ws
    by (rule recover_no_files)
  then have \<open>afterStream isEdit enable provider (streamLoop isEdit chunks initial) =
      afterStream isEdit enable provider' (streamLoop isEdit chunks initial)\<close>
    by (simp only: afterStream_def Let_def)
  then show ?thesis by (simp only: runSession_def)
qed

text \<open>
  Claim C2, as amended: the specification's scenario B, delivered as the prose chunk and
  the marker chunk. The session sends one conversation event with the trimmed prose; the
  truncation check reports one fault, the mismatch of open and close markers (it does
  not name the file); the empty payload of \<^verbatim>\<open>x.txt\<close> meets none of the conditions
  that select a file for regeneration, so no follow-up call is made, whatever the
  provider; the output stays the streamed text, and the fault is listed in the warnings
  of the complete event. When the configuration enables truncation recovery, the fault
  is also announced in one warning event before the complete event; when it does not, no
  warning event is sent.
\<close>

theorem scenario_B_in_two_chunks:
  \<open>truncationWarnings ''Sure, here is your code: <file path="x.txt">'' =
     [''Unclosed file tags detected: 1 open, 0 closed''] \<and>
   truncatedFiles ''Sure, here is your code: <file path="x.txt">'' = [] \<and>
   runSession isEdit enableTruncationRecovery provider
       [''Sure, here is your code: '', ''<file path="x.txt">''] Ended =
     [Stream ''Sure, here is your code: '',
      Conversation ''Sure, here is your code:'',
      Stream ''<file path="x.txt">''] @
     (if enableTruncationRecovery
      then [Warning ''Detected incomplete code generation. Attempting to complete...''
              (Some [''Unclosed file tags detected: 1 open, 0 closed''])]
      else []) @
     [Complete ''Sure, here is your code: <file path="x.txt">'' ''Code generated successfully!'' 0 0 None
        (Some [''Unclosed file tags detected: 1 open, 0 closed''])]\<close>
proof -
  have w: \<open>truncationWarnings ''Sure, here is your code: <file path="x.txt">'' =
     [''Unclosed file tags detected: 1 open, 0 closed'']\<close>
    by code_simp
  have t: \<open>truncatedFiles ''Sure, here is your code: <file path="x.txt">'' = []\<close>
    by code_simp
  have t': \<open>truncatedFiles (concat [''Sure, here is your code: '', ''<file path="x.txt">'']) = []\<close>
    using t by simp
  have ff: \<open>runSession False False (\<lambda>k f. None) [''Sure, here is your code: '', ''<file path="x.txt">''] Ended =
     [Stream ''Sure, here is your code: '',
      Conversation ''Sure, here is your code:'',
      Stream ''<file path="x.txt">''] @
     [] @
     [Complete ''Sure, here is your code: <file path="x.txt">'' ''Code generated successfully!'' 0 0 None
        (Some [''Unclosed file tags detected: 1 open, 0 closed''])]\<close>
    by code_simp
  have ft: \<open>runSession False True (\<lambda>k f. None) [''Sure, here is your code: '', ''<file path="x.txt">''] Ended =
     [Stream ''Sure, here is your code: '',
      Conversation ''Sure, here is your code:'',
      Stream ''<file path="x.txt">''] @
     [Warning ''Detected incomplete code generation. Attempting to complete...''
        (Some [''Unclosed file tags detected: 1 open, 0 closed''])] @
     [Complete ''Sure, here is your code: <file path="x.txt">'' ''Code generated successfully!'' 0 0 None
        (Some [''Unclosed file tags detected: 1 open, 0 closed''])]\<close>
    by code_simp
  have tf: \<open>runSession True False (\<lambda>k f. None) [''Sure, here is your code: '', ''<file path="x.txt">''] Ended =
     [Stream ''Sure, here is your code: '',
      Conversation ''Sure, here is your code:'',
      Stream ''<file path="x.txt">''] @
     [] @
     [Complete ''Sure, here is your code: <file path="x.txt">'' ''Code generated successfully!'' 0 0 None
        (Some [''Unclosed file tags detected: 1 open, 0 closed''])]\<close>
    by code_simp
  have tt: \<open>runSession True True (\<lambda>k f. None) [''Sure, here is your code: '', ''<file path="x.txt">''] Ended =
     [Stream ''Sure, here is your code: '',
      Conversation ''Sure, here is your code:'',
      Stream ''<file path="x.txt">''] @
     [Warning ''Detected incomplete code generation. Attempting to complete...''
        (Some [''Unclosed file tags detected: 1 open, 0 closed''])] @
     [Complete ''Sure, here is your code: <file path="x.txt">'' ''Code generated successfully!'' 0 0 None
        (Some [''Unclosed file tags detected: 1 open, 0 closed''])]\<close>
    by code_simp
  have p: \<open>runSession isEdit enableTruncationRecovery provider
        [''Sure, here is your code: '', ''<file path="x.txt">''] Ended =
      runSession isEdit enableTruncationRecovery (\<lambda>k f. None)
        [''Sure, here is your code: '', ''<file path="x.txt">''] Ended\<close>
    using t' by (rule runSession_no_files)
  have \<open>runSession isEdit enableTruncationRecovery provider
       [''Sure, here is your code: '', ''<file path="x.txt">''] Ended =
     [Stream ''Sure, here is your code: '',
      Conversation ''Sure, here is your code:'',
      Stream ''<file path="x.txt">''] @
     (if enableTruncationRecovery
      then [Warning ''Detected incomplete code generation. Attempting to complete...''
              (Some [''Unclosed file tags detected: 1 open, 0 closed''])]
      else []) @
     [Complete ''Sure, here is your code: <file path="x.txt">'' ''Code generated successfully!'' 0 0 None
        (Some [''Unclosed file tags detected: 1 open, 0 closed''])]\<close>
    unfolding p
    by (cases isEdit; cases enableTruncationRecovery) (simp_all only: ff ft tf tt if_True if_False)
  then show ?thesis using w t by blast
qed

text \<open>
  Claim C2 as stated expects one conversation event and one repair attempt for the input
  of scenario B. Sent as one chunk, with recovery enabled, the session sends no
  conversation event and announces no follow-up call: the output is left unclosed.
\<close>

theorem scenario_B_in_one_chunk:
  \<open>runSession False True (\<lambda>k f. Some ''repaired'') [''Sure, here is your code: <file path="x.txt">''] Ended =
     [Stream ''Sure, here is your code: <file path="x.txt">'',
      Warning ''Detected incomplete code generation. Attempting to complete...''
        (Some [''Unclosed file tags detected: 1 open, 0 closed'']),
      Complete ''Sure, here is your code: <file path="x.txt">'' ''Code generated successfully!'' 0 0 None
        (Some [''Unclosed file tags detected: 1 open, 0 closed''])]\<close>
  by code_simp

end
